theory Spec2Isabelle
  imports Main "HOL-Library.FSet"
begin

section \<open>The document tree of gopkg.in/yaml.v3\<close>

text \<open>
  Package \<open>specfmt\<close> (internal/specfmt/specfmt.go) works on \<open>*yaml.Node\<close> trees. Of a
  node it reads and writes four fields only: \<open>Kind\<close> (a \<open>uint32\<close>), \<open>Tag\<close>, \<open>Value\<close> and
  \<open>Content\<close> (the children, a slice of node pointers). The other fields of \<open>yaml.Node\<close>
  (style, anchor, alias target, comments, line and column) are never read or assigned by
  the package; \<open>cloneNode\<close> copies them and freshly built nodes carry their zero values.
  They are left out of the model.

  The decoder builds a tree: no node is the child of two nodes (an alias is a node of kind
  \<open>AliasNode\<close> with no children), and no child pointer is nil. In-place mutation through a
  pointer into the tree is therefore modelled by rebuilding the path from the root to the
  mutated node.
\<close>

datatype node = Node (Kind: nat) (Tag: string) (Value: string) (Content: "node list")

abbreviation DocumentNode :: nat where "DocumentNode \<equiv> 1"
abbreviation SequenceNode :: nat where "SequenceNode \<equiv> 2"
abbreviation MappingNode :: nat where "MappingNode \<equiv> 4"
abbreviation ScalarNode :: nat where "ScalarNode \<equiv> 8"
abbreviation AliasNode :: nat where "AliasNode \<equiv> 16"

text \<open>
  Errors are values. The three \<open>fmt.Errorf\<close> results of \<open>RefactorInlineResponseSchemas\<close>
  are constructors of their own; a run-time panic of the Go program (an index or a slice
  bound out of range) is \<open>Panic\<close>.
\<close>

datatype error =
    ExpectedYAMLDocument
  | ExpectedTopLevelMapping
  | InvalidPaths
  | Panic

section \<open>The Go library functions the package calls\<close>

text \<open>
  A Go string is a byte sequence, here a \<open>string\<close> (a list of 8-bit \<open>char\<close>s).
  \<open>strings.ToLower\<close>, \<open>unicode.ToUpper\<close> on the first rune of \<open>[]rune(s)\<close>, and the verb \<open>%q\<close>
  of \<open>fmt\<close> (\<open>strconv.Quote\<close>) are given by their definitions on strings of ASCII bytes. On
  any other string they decode UTF-8 and consult the Unicode tables of the Go
  distribution, which are no part of this repository: there the model takes their results
  from a parameter \<open>lib\<close>, about which nothing is assumed.
\<close>

record golib =
  ToLowerU :: "string \<Rightarrow> string"
  UpperFirstU :: "string \<Rightarrow> string"
  QuoteU :: "string \<Rightarrow> string"

definition is_ascii :: "string \<Rightarrow> bool" where
  "is_ascii s = list_all (\<lambda>c. (of_char c :: nat) < 128) s"

definition ascii_lower :: "char \<Rightarrow> char" where
  "ascii_lower c =
     (let n = (of_char c :: nat) in if 65 \<le> n \<and> n \<le> 90 then char_of (n + 32) else c)"

definition ascii_upper :: "char \<Rightarrow> char" where
  "ascii_upper c =
     (let n = (of_char c :: nat) in if 97 \<le> n \<and> n \<le> 122 then char_of (n - 32) else c)"

definition strings_ToLower :: "golib \<Rightarrow> string \<Rightarrow> string" where
  "strings_ToLower lib s = (if is_ascii s then map ascii_lower s else ToLowerU lib s)"

text \<open>
  \<open>runes := []rune(part); runes[0] = unicode.ToUpper(runes[0]); string(runes)\<close> for a
  non-empty \<open>part\<close>.
\<close>

definition upperFirstRune :: "golib \<Rightarrow> string \<Rightarrow> string" where
  "upperFirstRune lib part =
     (if is_ascii part
      then (case part of [] \<Rightarrow> [] | c # cs \<Rightarrow> ascii_upper c # cs)
      else UpperFirstU lib part)"

definition lowerhex :: "nat \<Rightarrow> char" where
  "lowerhex d = (if d < 10 then char_of (48 + d) else char_of (87 + d))"

text \<open>\<open>strconv.Quote\<close> on one ASCII byte (\<open>appendEscapedRune\<close> with the quote \<open>"\<close>).\<close>

definition quote_byte :: "char \<Rightarrow> string" where
  "quote_byte c =
     (let n = (of_char c :: nat) in
      if n = 34 \<or> n = 92 then [CHR 0x5C, c]
      else if 32 \<le> n \<and> n < 127 then [c]
      else if n = 7 then [CHR 0x5C, CHR ''a'']
      else if n = 8 then [CHR 0x5C, CHR ''b'']
      else if n = 12 then [CHR 0x5C, CHR ''f'']
      else if n = 10 then [CHR 0x5C, CHR ''n'']
      else if n = 13 then [CHR 0x5C, CHR ''r'']
      else if n = 9 then [CHR 0x5C, CHR ''t'']
      else if n = 11 then [CHR 0x5C, CHR ''v'']
      else [CHR 0x5C, CHR ''x'', lowerhex (n div 16), lowerhex (n mod 16)])"

definition strconv_Quote :: "golib \<Rightarrow> string \<Rightarrow> string" where
  "strconv_Quote lib s =
     (if is_ascii s then [CHR 0x22] @ concat (map quote_byte s) @ [CHR 0x22]
      else QuoteU lib s)"

text \<open>The verb \<open>%d\<close>: a natural number in decimal.\<close>

fun decimal :: "nat \<Rightarrow> string" where
  "decimal n =
     (if n < 10 then [char_of (48 + n)]
      else decimal (n div 10) @ [char_of (48 + n mod 10)])"

declare decimal.simps [simp del]

text \<open>\<open>strings.Split(s, sep)\<close> for a separator of one byte; the result is never empty.\<close>

fun strings_Split :: "string \<Rightarrow> char \<Rightarrow> string list" where
  "strings_Split [] sep = [[]]"
| "strings_Split (c # cs) sep =
     (if c = sep then [] # strings_Split cs sep
      else (case strings_Split cs sep of
              [] \<Rightarrow> [[c]]
            | p # ps \<Rightarrow> (c # p) # ps))"

text \<open>\<open>strings.ReplaceAll(s, old, new)\<close> for \<open>old\<close> and \<open>new\<close> of one byte each.\<close>

definition strings_ReplaceAll :: "string \<Rightarrow> char \<Rightarrow> char \<Rightarrow> string" where
  "strings_ReplaceAll s old new = map (\<lambda>c. if c = old then new else c) s"

definition strings_HasPrefix :: "string \<Rightarrow> string \<Rightarrow> bool" where
  "strings_HasPrefix s p = (take (length p) s = p)"

definition strings_HasSuffix :: "string \<Rightarrow> string \<Rightarrow> bool" where
  "strings_HasSuffix s p = (length p \<le> length s \<and> drop (length s - length p) s = p)"

section \<open>The name deriver\<close>

text \<open>
  \<open>toPascalCase\<close>: the loop over \<open>parts\<close> appends to a \<open>strings.Builder\<close>; an empty part is
  skipped, so \<open>runes[0]\<close> is never out of range.
\<close>

definition toPascalCase :: "golib \<Rightarrow> string \<Rightarrow> string" where
  "toPascalCase lib s =
     (let s' = strings_ReplaceAll s (CHR ''-'') (CHR ''_'');
          parts = strings_Split s' (CHR ''_'')
      in concat (map (\<lambda>part. if part = [] then [] else upperFirstRune lib part) parts))"

definition prefixes :: "string list" where
  "prefixes =
     [''get_'', ''post_'', ''put_'', ''delete_'',
      ''patch_'', ''options_'', ''head_'',
      ''list_'', ''create_'', ''update_'', ''remove_'']"

text \<open>
  The loop of \<open>deriveSchemaName\<close> over \<open>prefixes\<close>: at the first prefix of \<open>lower\<close> it slices
  \<open>operationID[len(p):]\<close> and breaks. The slice expression panics when \<open>operationID\<close> is
  shorter than \<open>p\<close>.
\<close>

fun stripPrefix :: "string \<Rightarrow> string list \<Rightarrow> string \<Rightarrow> error + string" where
  "stripPrefix lower [] operationID = Inr operationID"
| "stripPrefix lower (p # ps) operationID =
     (if strings_HasPrefix lower p
      then (if length operationID < length p then Inl Panic
            else Inr (drop (length p) operationID))
      else stripPrefix lower ps operationID)"

definition deriveSchemaName :: "golib \<Rightarrow> string \<Rightarrow> error + string" where
  "deriveSchemaName lib operationID =
     (if operationID = [] then Inr []
      else (case stripPrefix (strings_ToLower lib operationID) prefixes operationID of
              Inl e \<Rightarrow> Inl e
            | Inr operationID' \<Rightarrow>
                if operationID' = [] then Inr [] else Inr (toPascalCase lib operationID')))"

text \<open>The loop of \<open>deriveNameFromPathAndMethod\<close> over the segments of the path.\<close>

fun pathSegments :: "golib \<Rightarrow> string list \<Rightarrow> string list" where
  "pathSegments lib [] = []"
| "pathSegments lib (p # ps) =
     (if p = [] then pathSegments lib ps
      else (let p' = (if strings_HasPrefix p ''{'' \<and> strings_HasSuffix p ''}''
                      then take (length p - 2) (drop 1 p) else p)
            in toPascalCase lib p' # pathSegments lib ps))"

definition deriveNameFromPathAndMethod :: "golib \<Rightarrow> string \<Rightarrow> string \<Rightarrow> string" where
  "deriveNameFromPathAndMethod lib path method =
     (let parts = strings_Split path (CHR ''/'');
          out = pathSegments lib parts @ [toPascalCase lib (strings_ToLower lib method)]
      in concat out)"

definition deriveResponseSchemaNameHint ::
  "golib \<Rightarrow> string \<Rightarrow> string \<Rightarrow> string \<Rightarrow> string \<Rightarrow> error + string" where
  "deriveResponseSchemaNameHint lib path method operationID status =
     (case deriveSchemaName lib operationID of
        Inl e \<Rightarrow> Inl e
      | Inr base0 \<Rightarrow>
          (let base1 = (if base0 = [] then deriveNameFromPathAndMethod lib path method else base0);
               base = (if base1 = [] then ''Response'' else base1);
               statusSuffix = (if status = [] then ''Default'' else status)
           in Inr (base @ toPascalCase lib statusSuffix @ ''Response'')))"

section \<open>Node helpers\<close>

text \<open>
  \<open>getMapValue\<close>: the loop reads \<open>m.Content[i]\<close> and \<open>m.Content[i+1]\<close> before it compares
  the key, so a mapping with an odd number of children panics when the loop reaches the
  last child. All callers pass a non-nil \<open>m\<close>. The result \<open>None\<close> is Go's nil.
\<close>

fun lookupPairs :: "node list \<Rightarrow> string \<Rightarrow> error + node option" where
  "lookupPairs [] key = Inr None"
| "lookupPairs [k] key = Inl Panic"
| "lookupPairs (k # v # rest) key =
     (if Value k = key then Inr (Some v) else lookupPairs rest key)"

definition getMapValue :: "node \<Rightarrow> string \<Rightarrow> error + node option" where
  "getMapValue m key =
     (if Kind m \<noteq> MappingNode then Inr None else lookupPairs (Content m) key)"

text \<open>
  A caller that mutates the node \<open>getMapValue(m, key)\<close> returned mutates the child of \<open>m\<close> at
  that position. \<open>setMapValue m key v\<close> is \<open>m\<close> after such a mutation: the value of the first
  pair whose key is \<open>key\<close> is now \<open>v\<close>.
\<close>

fun updatePairs :: "node list \<Rightarrow> string \<Rightarrow> node \<Rightarrow> node list" where
  "updatePairs (k # v # rest) key v' =
     (if Value k = key then k # v' # rest else k # v # updatePairs rest key v')"
| "updatePairs xs key v' = xs"

definition setContent :: "node \<Rightarrow> node list \<Rightarrow> node" where
  "setContent n cs = Node (Kind n) (Tag n) (Value n) cs"

definition setMapValue :: "node \<Rightarrow> string \<Rightarrow> node \<Rightarrow> node" where
  "setMapValue m key v = setContent m (updatePairs (Content m) key v)"

definition scalarNode :: "string \<Rightarrow> node" where
  "scalarNode v = Node ScalarNode ''!!str'' v []"

text \<open>
  \<open>ensureMapValue\<close> returns the value found or created; the first component of the model's
  result is \<open>m\<close> after the call.
\<close>

definition ensureMapValue :: "node \<Rightarrow> string \<Rightarrow> error + (node \<times> node)" where
  "ensureMapValue m key =
     (let m1 = (if Kind m \<noteq> MappingNode then Node MappingNode (Tag m) (Value m) [] else m)
      in case getMapValue m1 key of
           Inl e \<Rightarrow> Inl e
         | Inr (Some v) \<Rightarrow> Inr (m1, v)
         | Inr None \<Rightarrow>
             (let k = scalarNode key;
                  v = Node MappingNode [] [] []
              in Inr (setContent m1 (Content m1 @ [k, v]), v)))"

definition appendMapEntry :: "node \<Rightarrow> string \<Rightarrow> node \<Rightarrow> node" where
  "appendMapEntry m key v = setContent m (Content m @ [scalarNode key, v])"

fun cloneNode :: "node \<Rightarrow> node" where
  "cloneNode (Node k t v cs) = Node k t v (map cloneNode cs)"

definition isRefOnlySchema :: "node \<Rightarrow> bool" where
  "isRefOnlySchema schema =
     (if Kind schema \<noteq> MappingNode then False
      else if length (Content schema) \<noteq> 2 then False
      else Value (Content schema ! 0) = ''$ref'')"

definition makeRefOnlySchema :: "node \<Rightarrow> string \<Rightarrow> node" where
  "makeRefOnlySchema schema compositeName =
     setContent schema
       [scalarNode ''$ref'', scalarNode (''#/components/schemas/'' @ compositeName)]"

section \<open>Fingerprints and the schema registry\<close>

text \<open>
  \<open>writeNodeFingerprint\<close> appends to a \<open>strings.Builder\<close>; the model returns what one call
  appends. Children are never nil, so the \<open>nil;\<close> marker is not produced.
\<close>

fun writeNodeFingerprint :: "golib \<Rightarrow> node \<Rightarrow> string" where
  "writeNodeFingerprint lib (Node k t v cs) =
     ''K:'' @ decimal k @ '';T:'' @ t @ '';V:'' @ strconv_Quote lib v @ '';'' @
     (if cs \<noteq> []
      then ''['' @ concat (map (\<lambda>c. writeNodeFingerprint lib c @ ''|'') cs) @ '']''
      else [])"

definition schemaFingerprint :: "golib \<Rightarrow> node \<Rightarrow> string" where
  "schemaFingerprint lib n = writeNodeFingerprint lib n"

text \<open>
  The registry. \<open>schemasNode\<close> is a pointer to the \<open>components.schemas\<close> node of the
  document; the model keeps the node itself here while the walk runs and writes it back
  into the document at the end. \<open>existingNames\<close> is a Go map used as a set.
\<close>

record schemaRegistry =
  byFingerprint :: "string \<rightharpoonup> string"
  existingNames :: "string fset"
  schemasNode :: node

fun seedRegistry :: "golib \<Rightarrow> node list \<Rightarrow> schemaRegistry \<Rightarrow> error + schemaRegistry" where
  "seedRegistry lib [] r = Inr r"
| "seedRegistry lib [nameNode] r = Inl Panic"
| "seedRegistry lib (nameNode # schemaNode # rest) r =
     (let name = Value nameNode;
          r1 = r\<lparr>existingNames := finsert name (existingNames r)\<rparr>;
          fp = schemaFingerprint lib schemaNode;
          r2 = (if fp \<noteq> [] then r1\<lparr>byFingerprint := (byFingerprint r1)(fp \<mapsto> name)\<rparr> else r1)
      in seedRegistry lib rest r2)"

definition newSchemaRegistry :: "golib \<Rightarrow> node \<Rightarrow> error + schemaRegistry" where
  "newSchemaRegistry lib schemas =
     (let r = \<lparr>byFingerprint = Map.empty, existingNames = {||}, schemasNode = schemas\<rparr>
      in if Kind schemas = MappingNode then seedRegistry lib (Content schemas) r else Inr r)"

subsection \<open>Unique names\<close>

text \<open>
  The loop of \<open>ensureUniqueName\<close> has no bound: it tries \<open>base\<close>, then \<open>base2\<close>, \<open>base3\<close>, ...
  (\<open>fmt.Sprintf("%s%d", base, i)\<close>) until a name is not in \<open>existingNames\<close>. It ends because
  the set is finite and the candidates are pairwise distinct; the counter \<open>i\<close>, a Go \<open>int\<close>,
  is a natural number here. \<open>undecimal\<close> reads a decimal numeral back and serves the
  termination proof only: it shows that \<open>decimal\<close> is injective.
\<close>

definition undecimal :: "string \<Rightarrow> nat" where
  "undecimal s = foldl (\<lambda>a c. 10 * a + (of_char c - 48)) 0 s"

function uniqueLoop :: "string fset \<Rightarrow> string \<Rightarrow> string \<Rightarrow> nat \<Rightarrow> string" where
  "uniqueLoop names base name i =
     (if name |\<notin>| names then name
      else uniqueLoop names base (base @ decimal i) (Suc i))"
  by pat_completeness auto
termination
proof -
  have snoc: "undecimal (s @ [c]) = 10 * undecimal s + (of_char c - 48)" for s c
    by (simp add: undecimal_def)
  have rt: "undecimal (decimal n) = n" for n
  proof (induction n rule: decimal.induct)
    case (1 n)
    show ?case
    proof (cases "n < 10")
      case True
      then show ?thesis
        by (subst decimal.simps) (simp add: undecimal_def)
    next
      case False
      have "undecimal (decimal n) = 10 * undecimal (decimal (n div 10)) + (n mod 10)"
        using False by (subst decimal.simps) (simp add: snoc)
      also have "\<dots> = n" using 1 False by simp
      finally show ?thesis .
    qed
  qed
  have inj: "inj (\<lambda>j. base @ decimal j)" for base
    by (auto simp: inj_on_def) (metis rt)
  have fin: "finite {j. i \<le> j \<and> base @ decimal j |\<in>| names}" for i base names
  proof -
    have "finite ((\<lambda>j. base @ decimal j) -` fset names)"
      using inj by (intro finite_vimageI) auto
    then show ?thesis
      by (rule rev_finite_subset) auto
  qed
  let ?m = "\<lambda>(names, base, name, i).
          2 * card {j. i \<le> j \<and> base @ decimal j |\<in>| names} + (if name |\<in>| names then 1 else 0)"
  show ?thesis
  proof (relation "measure ?m")
    show "wf (measure ?m)"
      by simp
  next
    fix names :: "string fset" and base name :: string and i :: nat
    assume taken: "\<not> name |\<notin>| names"
    let ?S = "\<lambda>i. {j. i \<le> j \<and> base @ decimal j |\<in>| names}"
    have sub: "?S (Suc i) \<subseteq> ?S i" by auto
    show "((names, base, base @ decimal i, Suc i), (names, base, name, i)) \<in> measure ?m"
    proof (cases "base @ decimal i |\<in>| names")
      case True
      then have "i \<in> ?S i" "i \<notin> ?S (Suc i)" by auto
      then have "?S (Suc i) \<subset> ?S i" using sub by blast
      then have "card (?S (Suc i)) < card (?S i)"
        by (intro psubset_card_mono fin)
      with True taken show ?thesis by simp
    next
      case False
      have "card (?S (Suc i)) \<le> card (?S i)"
        by (intro card_mono fin sub)
      with False taken show ?thesis by simp
    qed
  qed
qed

declare uniqueLoop.simps [simp del]

definition ensureUniqueName :: "golib \<Rightarrow> schemaRegistry \<Rightarrow> string \<Rightarrow> string \<Rightarrow> error + string" where
  "ensureUniqueName lib r base fp =
     (case getMapValue (schemasNode r) base of
        Inl e \<Rightarrow> Inl e
      | Inr (Some existing) \<Rightarrow>
          if schemaFingerprint lib existing = fp then Inr base
          else Inr (uniqueLoop (existingNames r) base base 2)
      | Inr None \<Rightarrow> Inr (uniqueLoop (existingNames r) base base 2))"

subsection \<open>componentizeSchema\<close>

text \<open>
  \<open>componentizeSchema\<close> returns \<open>(name, changed, err)\<close> and mutates the node \<open>schemaNode\<close> points
  to and the registry. The model returns \<open>Inl\<close> for a panic and otherwise the name, the
  flag, the node after the call (\<open>None\<close> for a nil pointer) and the registry after the call.
  The Go function never returns a non-nil \<open>err\<close>. Narration to standard output
  (\<open>opts.Verbose\<close>) is not modelled.
\<close>

definition componentizeSchema ::
  "golib \<Rightarrow> schemaRegistry \<Rightarrow> node option \<Rightarrow> string
    \<Rightarrow> error + (string \<times> bool \<times> node option \<times> schemaRegistry)" where
  "componentizeSchema lib r schemaNode nameHint =
     (case schemaNode of
        None \<Rightarrow> Inr ([], False, None, r)
      | Some n \<Rightarrow>
          if Kind n \<noteq> MappingNode then Inr ([], False, Some n, r)
          else if isRefOnlySchema n then Inr ([], False, Some n, r)
          else
            (let fp = schemaFingerprint lib n in
             case byFingerprint r fp of
               Some existingName \<Rightarrow>
                 Inr (existingName, True, Some (makeRefOnlySchema n existingName), r)
             | None \<Rightarrow>
                 (let candidate = (if nameHint = [] then ''InlineSchema'' else nameHint) in
                  case ensureUniqueName lib r candidate fp of
                    Inl e \<Rightarrow> Inl e
                  | Inr name \<Rightarrow>
                      (let cloned = cloneNode n;
                           r' = r\<lparr>schemasNode := appendMapEntry (schemasNode r) name cloned,
                                  existingNames := finsert name (existingNames r),
                                  byFingerprint := (byFingerprint r)(fp \<mapsto> name)\<rparr>
                       in Inr (name, True, Some (makeRefOnlySchema n name), r')))))"

text \<open>The node behind a pointer the caller knows to be non-nil, after a call.\<close>

definition pointee :: "node \<Rightarrow> node option \<Rightarrow> node" where
  "pointee n after = (case after of None \<Rightarrow> n | Some n' \<Rightarrow> n')"

section \<open>The alternatives idiom\<close>

text \<open>
  Each test of \<open>isInlineObjectWithAlternatives\<close> has the form
  \<open>v := getMapValue(m, key); if v == nil || ... { return false }\<close>. \<open>withField m key rest\<close> is
  the lookup, the nil test and, for a non-nil \<open>v\<close>, the remaining tests \<open>rest v\<close>.
\<close>

definition withField :: "node \<Rightarrow> string \<Rightarrow> (node \<Rightarrow> error + bool) \<Rightarrow> error + bool" where
  "withField m key rest =
     (case getMapValue m key of
        Inl e \<Rightarrow> Inl e
      | Inr None \<Rightarrow> Inr False
      | Inr (Some v) \<Rightarrow> rest v)"

definition isInlineObjectWithAlternatives :: "node \<Rightarrow> node \<Rightarrow> error + bool" where
  "isInlineObjectWithAlternatives baseNode extNode =
     (if Kind baseNode \<noteq> MappingNode \<or> Kind extNode \<noteq> MappingNode then Inr False
      else
        withField baseNode ''type'' (\<lambda>baseType.
          if Value baseType \<noteq> ''object'' then Inr False else
        withField extNode ''type'' (\<lambda>extType.
          if Value extType \<noteq> ''object'' then Inr False else
        withField extNode ''properties'' (\<lambda>extProps.
          if Kind extProps \<noteq> MappingNode then Inr False else
        withField extProps ''alternatives'' (\<lambda>alts.
          if Kind alts \<noteq> MappingNode then Inr False else
        withField alts ''type'' (\<lambda>altType.
          if Value altType \<noteq> ''array'' then Inr False else
        withField alts ''items'' (\<lambda>items.
          if Kind items \<noteq> MappingNode then Inr False else
        withField items ''type'' (\<lambda>itemsType.
          if Value itemsType \<noteq> ''object'' then Inr False else
          Inr True))))))))"

definition buildCompositeSchema :: "string \<Rightarrow> node" where
  "buildCompositeSchema baseName =
     (let refValue = ''#/components/schemas/'' @ baseName in
      Node MappingNode [] []
        [scalarNode ''allOf'',
         Node SequenceNode [] []
           [Node MappingNode [] [] [scalarNode ''$ref'', scalarNode refValue],
            Node MappingNode [] []
              [scalarNode ''type'', scalarNode ''object'',
               scalarNode ''properties'',
               Node MappingNode [] []
                 [scalarNode ''alternatives'',
                  Node MappingNode [] []
                    [scalarNode ''type'', scalarNode ''array'',
                     scalarNode ''description'',
                     scalarNode ''An array of other possible matches'',
                     scalarNode ''items'',
                     Node MappingNode [] []
                       [scalarNode ''$ref'', scalarNode refValue]]]]]])"

text \<open>
  \<open>handleAlternativesPattern\<close> receives \<open>schemasNode\<close> and \<open>reg\<close>; its caller passes the
  registry's own \<open>schemasNode\<close> pointer as the first, so the model has the registry only.
  The result is the flag, the node \<open>schemaNode\<close> points to after the call, and the registry.
\<close>

definition registerSchema :: "golib \<Rightarrow> schemaRegistry \<Rightarrow> string \<Rightarrow> node \<Rightarrow> schemaRegistry" where
  "registerSchema lib r name n =
     r\<lparr>schemasNode := appendMapEntry (schemasNode r) name n,
       existingNames := finsert name (existingNames r),
       byFingerprint := (byFingerprint r)(schemaFingerprint lib n \<mapsto> name)\<rparr>"

definition handleAlternativesPattern ::
  "golib \<Rightarrow> string \<Rightarrow> string \<Rightarrow> string \<Rightarrow> string \<Rightarrow> node \<Rightarrow> node \<Rightarrow> schemaRegistry
    \<Rightarrow> error + (bool \<times> node \<times> schemaRegistry)" where
  "handleAlternativesPattern lib path method operationID status schemaNode baseNode r =
     (case deriveSchemaName lib operationID of
        Inl e \<Rightarrow> Inl e
      | Inr baseName \<Rightarrow>
          if baseName = [] then
            (case deriveResponseSchemaNameHint lib path method operationID status of
               Inl e \<Rightarrow> Inl e
             | Inr nameHint \<Rightarrow>
                 (case componentizeSchema lib r (Some schemaNode) nameHint of
                    Inl e \<Rightarrow> Inl e
                  | Inr (name, changed, after, r') \<Rightarrow>
                      Inr (changed, pointee schemaNode after, r')))
          else
            (let compositeName = baseName @ ''WithAlternatives'' in
             case getMapValue (schemasNode r) baseName of
               Inl e \<Rightarrow> Inl e
             | Inr found1 \<Rightarrow>
                 (let r1 = (if found1 = None
                            then registerSchema lib r baseName (cloneNode baseNode) else r)
                  in case getMapValue (schemasNode r1) compositeName of
                       Inl e \<Rightarrow> Inl e
                     | Inr found2 \<Rightarrow>
                         (let r2 = (if found2 = None
                                    then registerSchema lib r1 compositeName
                                           (buildCompositeSchema baseName)
                                    else r1)
                          in Inr (True, makeRefOnlySchema schemaNode compositeName, r2)))))"

section \<open>The document walker\<close>

text \<open>
  Lines 308 to 332 of \<open>processResponseSchema\<close>: what is done with the schema node once it
  is found to be a mapping. \<open>alternativesBase\<close> is the test of lines 312 to 317; it returns
  \<open>allOfNode.Content[0]\<close> when the two-element \<open>allOf\<close> matches the idiom.
\<close>

definition alternativesBase :: "node option \<Rightarrow> error + node option" where
  "alternativesBase allOfNode =
     (case allOfNode of
        None \<Rightarrow> Inr None
      | Some a \<Rightarrow>
          if Kind a = SequenceNode \<and> length (Content a) = 2 then
            (case isInlineObjectWithAlternatives (Content a ! 0) (Content a ! 1) of
               Inl e \<Rightarrow> Inl e
             | Inr matches \<Rightarrow> Inr (if matches then Some (Content a ! 0) else None))
          else Inr None)"

definition componentizeInline ::
  "golib \<Rightarrow> string \<Rightarrow> string \<Rightarrow> string \<Rightarrow> string \<Rightarrow> node \<Rightarrow> schemaRegistry
    \<Rightarrow> error + (bool \<times> node \<times> schemaRegistry)" where
  "componentizeInline lib path method operationID status schemaNode r =
     (case deriveResponseSchemaNameHint lib path method operationID status of
        Inl e \<Rightarrow> Inl e
      | Inr nameHint \<Rightarrow>
          (case componentizeSchema lib r (Some schemaNode) nameHint of
             Inl e \<Rightarrow> Inl e
           | Inr (name, changed, after, r') \<Rightarrow> Inr (changed, pointee schemaNode after, r')))"

definition processSchemaNode ::
  "golib \<Rightarrow> string \<Rightarrow> string \<Rightarrow> string \<Rightarrow> string \<Rightarrow> node \<Rightarrow> schemaRegistry
    \<Rightarrow> error + (bool \<times> node \<times> schemaRegistry)" where
  "processSchemaNode lib path method operationID status schemaNode r =
     (if isRefOnlySchema schemaNode then Inr (False, schemaNode, r)
      else
        (case getMapValue schemaNode ''allOf'' of
           Inl e \<Rightarrow> Inl e
         | Inr allOfNode \<Rightarrow>
             (case alternativesBase allOfNode of
                Inl e \<Rightarrow> Inl e
              | Inr (Some baseNode) \<Rightarrow>
                  handleAlternativesPattern lib path method operationID status
                    schemaNode baseNode r
              | Inr None \<Rightarrow>
                  componentizeInline lib path method operationID status schemaNode r)))"

definition contentTypes :: "string list" where
  "contentTypes =
     [''application/json; charset=UTF-8'',
      ''application/json'',
      ''application/json; charset=utf-8'']"

text \<open>
  The loop over the three spellings: the first key for which \<open>getMapValue\<close> is not nil.
  The model returns the key with the value, to write the mutated value back under it.
\<close>

fun firstContentType :: "node \<Rightarrow> string list \<Rightarrow> error + (string \<times> node) option" where
  "firstContentType contentNode [] = Inr None"
| "firstContentType contentNode (contentType # rest) =
     (case getMapValue contentNode contentType of
        Inl e \<Rightarrow> Inl e
      | Inr (Some appJSON) \<Rightarrow> Inr (Some (contentType, appJSON))
      | Inr None \<Rightarrow> firstContentType contentNode rest)"

text \<open>
  \<open>processResponseSchema\<close>: the flag, the response node after the call and the registry
  after the call. Like \<open>componentizeSchema\<close> it never returns a non-nil \<open>err\<close>.
\<close>

definition processResponseSchema ::
  "golib \<Rightarrow> string \<Rightarrow> string \<Rightarrow> string \<Rightarrow> string \<Rightarrow> node \<Rightarrow> schemaRegistry
    \<Rightarrow> error + (bool \<times> node \<times> schemaRegistry)" where
  "processResponseSchema lib path method operationID status responseNode r =
     (if Kind responseNode \<noteq> MappingNode then Inr (False, responseNode, r)
      else
        (case getMapValue responseNode ''content'' of
           Inl e \<Rightarrow> Inl e
         | Inr None \<Rightarrow> Inr (False, responseNode, r)
         | Inr (Some contentNode) \<Rightarrow>
             if Kind contentNode \<noteq> MappingNode then Inr (False, responseNode, r)
             else
               (case firstContentType contentNode contentTypes of
                  Inl e \<Rightarrow> Inl e
                | Inr None \<Rightarrow> Inr (False, responseNode, r)
                | Inr (Some (contentType, appJSON)) \<Rightarrow>
                    if Kind appJSON \<noteq> MappingNode then Inr (False, responseNode, r)
                    else
                      (case getMapValue appJSON ''schema'' of
                         Inl e \<Rightarrow> Inl e
                       | Inr None \<Rightarrow> Inr (False, responseNode, r)
                       | Inr (Some schemaNode) \<Rightarrow>
                           if Kind schemaNode \<noteq> MappingNode then Inr (False, responseNode, r)
                           else
                             (case processSchemaNode lib path method operationID status
                                     schemaNode r of
                                Inl e \<Rightarrow> Inl e
                              | Inr (changed, schemaNode', r') \<Rightarrow>
                                  Inr (changed,
                                       setMapValue responseNode ''content''
                                         (setMapValue contentNode contentType
                                            (setMapValue appJSON ''schema'' schemaNode')),
                                       r'))))))"

text \<open>
  The three nested loops of \<open>RefactorInlineResponseSchemas\<close>. Each steps through the
  children of a mapping two at a time and reads \<open>Content[i+1]\<close> at once, so a last child
  without a partner panics. Each returns whether a response changed, the children after
  the loop and the registry after the loop.
\<close>

fun walkResponses ::
  "golib \<Rightarrow> string \<Rightarrow> string \<Rightarrow> string \<Rightarrow> node list \<Rightarrow> schemaRegistry
    \<Rightarrow> error + (bool \<times> node list \<times> schemaRegistry)" where
  "walkResponses lib path method operationID [] r = Inr (False, [], r)"
| "walkResponses lib path method operationID [codeKey] r = Inl Panic"
| "walkResponses lib path method operationID (codeKey # codeVal # rest) r =
     (case processResponseSchema lib path method operationID (Value codeKey) codeVal r of
        Inl e \<Rightarrow> Inl e
      | Inr (changedHere, codeVal', r') \<Rightarrow>
          (case walkResponses lib path method operationID rest r' of
             Inl e \<Rightarrow> Inl e
           | Inr (changed, rest', r'') \<Rightarrow>
               Inr (changedHere \<or> changed, codeKey # codeVal' # rest', r'')))"

definition httpMethods :: "string list" where
  "httpMethods = [''get'', ''post'', ''put'', ''delete'', ''patch'', ''options'', ''head'']"

text \<open>The body of the loop over the operations of one path (lines 226 to 265).\<close>

definition walkOperation ::
  "golib \<Rightarrow> string \<Rightarrow> node \<Rightarrow> node \<Rightarrow> schemaRegistry
    \<Rightarrow> error + (bool \<times> node \<times> schemaRegistry)" where
  "walkOperation lib path methodKey methodVal r =
     (let method = Value methodKey in
      if method \<notin> set httpMethods then Inr (False, methodVal, r)
      else if Kind methodVal \<noteq> MappingNode then Inr (False, methodVal, r)
      else
        (case getMapValue methodVal ''operationId'' of
           Inl e \<Rightarrow> Inl e
         | Inr opIDNode \<Rightarrow>
             (let operationID =
                    (case opIDNode of
                       None \<Rightarrow> []
                     | Some n \<Rightarrow> if Kind n = ScalarNode then Value n else [])
              in case getMapValue methodVal ''responses'' of
                   Inl e \<Rightarrow> Inl e
                 | Inr None \<Rightarrow> Inr (False, methodVal, r)
                 | Inr (Some respNode) \<Rightarrow>
                     if Kind respNode \<noteq> MappingNode then Inr (False, methodVal, r)
                     else
                       (case walkResponses lib path method operationID (Content respNode) r of
                          Inl e \<Rightarrow> Inl e
                        | Inr (changed, content', r') \<Rightarrow>
                            Inr (changed,
                                 setMapValue methodVal ''responses'' (setContent respNode content'),
                                 r')))))"

fun walkOperations ::
  "golib \<Rightarrow> string \<Rightarrow> node list \<Rightarrow> schemaRegistry
    \<Rightarrow> error + (bool \<times> node list \<times> schemaRegistry)" where
  "walkOperations lib path [] r = Inr (False, [], r)"
| "walkOperations lib path [methodKey] r = Inl Panic"
| "walkOperations lib path (methodKey # methodVal # rest) r =
     (case walkOperation lib path methodKey methodVal r of
        Inl e \<Rightarrow> Inl e
      | Inr (changedHere, methodVal', r') \<Rightarrow>
          (case walkOperations lib path rest r' of
             Inl e \<Rightarrow> Inl e
           | Inr (changed, rest', r'') \<Rightarrow>
               Inr (changedHere \<or> changed, methodKey # methodVal' # rest', r'')))"

fun walkPaths ::
  "golib \<Rightarrow> node list \<Rightarrow> schemaRegistry \<Rightarrow> error + (bool \<times> node list \<times> schemaRegistry)" where
  "walkPaths lib [] r = Inr (False, [], r)"
| "walkPaths lib [pathKey] r = Inl Panic"
| "walkPaths lib (pathKey # pathVal # rest) r =
     (case (if Kind pathVal \<noteq> MappingNode then Inr (False, pathVal, r)
            else (case walkOperations lib (Value pathKey) (Content pathVal) r of
                    Inl e \<Rightarrow> Inl e
                  | Inr (changed, content', r') \<Rightarrow>
                      Inr (changed, setContent pathVal content', r'))) of
        Inl e \<Rightarrow> Inl e
      | Inr (changedHere, pathVal', r') \<Rightarrow>
          (case walkPaths lib rest r' of
             Inl e \<Rightarrow> Inl e
           | Inr (changed, rest', r'') \<Rightarrow>
               Inr (changedHere \<or> changed, pathKey # pathVal' # rest', r'')))"

text \<open>
  \<open>RefactorInlineResponseSchemas\<close> returns \<open>(changed, err)\<close> and mutates the document. The
  model returns the error, or the flag and the document after the call. At the end the
  nodes the walk worked on are written back where the pointers to them were found:
  \<open>components.schemas\<close>, \<open>components\<close> and \<open>paths\<close>.
\<close>

definition RefactorInlineResponseSchemas :: "golib \<Rightarrow> node \<Rightarrow> error + (bool \<times> node)" where
  "RefactorInlineResponseSchemas lib root =
     (if Kind root \<noteq> DocumentNode \<or> length (Content root) = 0 then Inl ExpectedYAMLDocument
      else
        (let top = Content root ! 0 in
         if Kind top \<noteq> MappingNode then Inl ExpectedTopLevelMapping
         else
           (case ensureMapValue top ''components'' of
              Inl e \<Rightarrow> Inl e
            | Inr (top1, componentsNode) \<Rightarrow>
           (case ensureMapValue componentsNode ''schemas'' of
              Inl e \<Rightarrow> Inl e
            | Inr (componentsNode1, schemasNode0) \<Rightarrow>
           (case newSchemaRegistry lib schemasNode0 of
              Inl e \<Rightarrow> Inl e
            | Inr reg \<Rightarrow>
           (let top2 = setMapValue top1 ''components'' componentsNode1 in
            case getMapValue top2 ''paths'' of
              Inl e \<Rightarrow> Inl e
            | Inr None \<Rightarrow> Inl InvalidPaths
            | Inr (Some pathsNode) \<Rightarrow>
                if Kind pathsNode \<noteq> MappingNode then Inl InvalidPaths
                else
                  (case walkPaths lib (Content pathsNode) reg of
                     Inl e \<Rightarrow> Inl e
                   | Inr (changed, content', reg') \<Rightarrow>
                       (let componentsNode2 =
                              setMapValue componentsNode1 ''schemas'' (schemasNode reg');
                            top3 = setMapValue top2 ''components'' componentsNode2;
                            top4 = setMapValue top3 ''paths'' (setContent pathsNode content')
                        in Inr (changed, setContent root (top4 # tl (Content root)))))))))))"

section \<open>FormatFile and the command\<close>

text \<open>
  \<open>FormatFile\<close> reads and writes files and calls the YAML decoder and encoder of
  \<open>gopkg.in/yaml.v3\<close>. The file system is a map from paths to contents. What lies outside
  the repository is a parameter \<open>sys\<close>: \<open>decode\<close> is \<open>yaml.NewDecoder(f).Decode\<close> on the
  content of the input (\<open>None\<close> for an error); \<open>creatable\<close> tells whether \<open>os.Create\<close>
  succeeds on a path; \<open>encode\<close> gives the bytes \<open>writeYAML\<close> has written to the file when it
  returns, and whether it returned nil. \<open>os.Open\<close> fails on a path with no file.
  \<open>os.Create\<close> truncates the file before the encoder writes. \<open>Verbose\<close> only adds
  narration on standard output, which is not modelled.
\<close>

record Options =
  DryRun :: bool
  Verbose :: bool

record sys =
  decode :: "string \<Rightarrow> node option"
  creatable :: "string \<Rightarrow> bool"
  encode :: "node \<Rightarrow> string \<times> bool"

datatype failure =
    OpenInput
  | DecodeYAML
  | Refactor error
  | CreateOutput
  | EncodeYAML

text \<open>
  The result is the error (\<open>None\<close> for nil; a panic inside the refactoring ends the process
  and is \<open>Refactor Panic\<close>) and the file system after the call.
\<close>

definition FormatFile ::
  "golib \<Rightarrow> sys \<Rightarrow> string \<Rightarrow> string \<Rightarrow> Options \<Rightarrow> (string \<rightharpoonup> string)
    \<Rightarrow> failure option \<times> (string \<rightharpoonup> string)" where
  "FormatFile lib sys inPath outPath opts files =
     (case files inPath of
        None \<Rightarrow> (Some OpenInput, files)
      | Some text \<Rightarrow>
          (case decode sys text of
             None \<Rightarrow> (Some DecodeYAML, files)
           | Some root \<Rightarrow>
               (case RefactorInlineResponseSchemas lib root of
                  Inl e \<Rightarrow> (Some (Refactor e), files)
                | Inr (changed, root') \<Rightarrow>
                    if DryRun opts then (None, files)
                    else if \<not> changed then (None, files)
                    else if \<not> creatable sys outPath then (Some CreateOutput, files)
                    else
                      (let (written, ok) = encode sys root'
                       in (if ok then None else Some EncodeYAML,
                           files(outPath \<mapsto> written))))))"

text \<open>\<open>FormatCmd.Run\<close> of cmd/specfmt/main.go.\<close>

record FormatCmd =
  Input :: string
  Output :: string
  CmdDryRun :: bool
  CmdVerbose :: bool

definition Run ::
  "golib \<Rightarrow> sys \<Rightarrow> FormatCmd \<Rightarrow> (string \<rightharpoonup> string) \<Rightarrow> failure option \<times> (string \<rightharpoonup> string)" where
  "Run lib sys cmd files =
     (let out = (if Output cmd = [] then Input cmd else Output cmd)
      in FormatFile lib sys (Input cmd) out
           \<lparr>DryRun = CmdDryRun cmd, Verbose = CmdVerbose cmd\<rparr> files)"

section \<open>Example documents\<close>

text \<open>
  Concrete inputs for the witnesses and counterexamples below. \<open>exampleLib\<close> stands for the
  Go library outside ASCII; the examples are ASCII, so its choice does not matter.
\<close>

definition exampleLib :: golib where
  "exampleLib = \<lparr>ToLowerU = (\<lambda>s. s), UpperFirstU = (\<lambda>s. s), QuoteU = (\<lambda>s. s)\<rparr>"

definition mapping :: "node list \<Rightarrow> node" where
  "mapping cs = Node MappingNode ''!!map'' [] cs"

definition sequence :: "node list \<Rightarrow> node" where
  "sequence cs = Node SequenceNode ''!!seq'' [] cs"

definition document :: "node \<Rightarrow> node" where
  "document t = Node DocumentNode [] [] [t]"

definition emptyRegistry :: schemaRegistry where
  "emptyRegistry =
     \<lparr>byFingerprint = Map.empty, existingNames = {||}, schemasNode = mapping []\<rparr>"

definition refSchema :: "string \<Rightarrow> node" where
  "refSchema name =
     mapping [scalarNode ''$ref'', scalarNode (''#/components/schemas/'' @ name)]"

definition objectSchema :: node where
  "objectSchema = mapping [scalarNode ''type'', scalarNode ''object'']"

definition stringSchema :: node where
  "stringSchema = mapping [scalarNode ''type'', scalarNode ''string'']"

text \<open>A response with one media type, and an operation with one response of status 200.\<close>

definition response :: "string \<Rightarrow> node \<Rightarrow> node" where
  "response contentType s =
     mapping [scalarNode ''content'',
       mapping [scalarNode contentType, mapping [scalarNode ''schema'', s]]]"

definition operation :: "string \<Rightarrow> node \<Rightarrow> node" where
  "operation opid s =
     mapping [scalarNode ''operationId'', scalarNode opid,
       scalarNode ''responses'',
       mapping [scalarNode ''200'', response ''application/json'' s]]"

text \<open>Documents, a decoder and encoder, and a file system for \<open>FormatFile\<close>.\<close>

definition docEmptyPaths :: node where
  "docEmptyPaths = document (mapping [scalarNode ''paths'', mapping []])"

definition docNoPaths :: node where
  "docNoPaths = document (mapping [])"

definition docInline :: node where
  "docInline =
     document (mapping [scalarNode ''paths'',
       mapping [scalarNode ''/a'', mapping [scalarNode ''get'', operation ''get_a'' objectSchema]]])"

definition exampleSys :: sys where
  "exampleSys =
     \<lparr>decode = (\<lambda>text. if text = ''inline'' then Some docInline
                       else if text = ''empty'' then Some docEmptyPaths
                       else if text = ''nopaths'' then Some docNoPaths
                       else None),
      creatable = (\<lambda>p. True),
      encode = (\<lambda>n. (''encoded'', True))\<rparr>"

definition diskFullSys :: sys where
  "diskFullSys = exampleSys\<lparr>encode := (\<lambda>n. (''enc'', False))\<rparr>"

definition exampleFiles :: "string \<rightharpoonup> string" where
  "exampleFiles = [''inline.yaml'' \<mapsto> ''inline'', ''empty.yaml'' \<mapsto> ''empty'',
                   ''nopaths.yaml'' \<mapsto> ''nopaths'', ''out.yaml'' \<mapsto> ''old'']"

definition writeOptions :: Options where
  "writeOptions = \<lparr>DryRun = False, Verbose = False\<rparr>"

text \<open>A response that offers two of the three JSON media types.\<close>

definition twoTypesContent :: node where
  "twoTypesContent =
     mapping [scalarNode ''application/json; charset=utf-8'',
              mapping [scalarNode ''schema'', stringSchema],
              scalarNode ''application/json'',
              mapping [scalarNode ''schema'', objectSchema]]"

definition twoTypes :: node where
  "twoTypes = mapping [scalarNode ''content'', twoTypesContent]"

text \<open>
  To state what a document holds at a place: \<open>docAt root keys\<close> follows the keys from the
  top-level mapping down, with \<open>getMapValue\<close> at each step.
\<close>

fun nodeAt :: "node \<Rightarrow> string list \<Rightarrow> node option" where
  "nodeAt n [] = Some n"
| "nodeAt n (key # keys) =
     (case getMapValue n key of
        Inr (Some v) \<Rightarrow> nodeAt v keys
      | _ \<Rightarrow> None)"

definition docAt :: "node \<Rightarrow> string list \<Rightarrow> node option" where
  "docAt root keys = (case Content root of [] \<Rightarrow> None | t # rest \<Rightarrow> nodeAt t keys)"

definition schemaPlace :: "string \<Rightarrow> string \<Rightarrow> string \<Rightarrow> string list" where
  "schemaPlace path method status =
     [''paths'', path, method, ''responses'', status, ''content'', ''application/json'', ''schema'']"

text \<open>Schemas of the alternatives idiom, and a document whose component \<open>Airport\<close> is taken.\<close>

definition airportBase :: node where
  "airportBase =
     mapping [scalarNode ''type'', scalarNode ''object'',
              scalarNode ''properties'',
              mapping [scalarNode ''code'', stringSchema]]"

definition operatorBase :: node where
  "operatorBase =
     mapping [scalarNode ''type'', scalarNode ''object'',
              scalarNode ''properties'',
              mapping [scalarNode ''icao'', stringSchema]]"

definition alternativesExt :: "node \<Rightarrow> node" where
  "alternativesExt base =
     mapping [scalarNode ''type'', scalarNode ''object'',
              scalarNode ''properties'',
              mapping [scalarNode ''alternatives'',
                mapping [scalarNode ''type'', scalarNode ''array'',
                         scalarNode ''items'', base]]]"

definition alternativesSchema :: "node \<Rightarrow> node" where
  "alternativesSchema base =
     mapping [scalarNode ''allOf'', sequence [base, alternativesExt base]]"

definition docAirportTaken :: node where
  "docAirportTaken =
     document (mapping
       [scalarNode ''paths'',
        mapping [scalarNode ''/airports/{id}'',
          mapping [scalarNode ''get'',
            operation ''get_airport'' (alternativesSchema airportBase)]],
        scalarNode ''components'',
        mapping [scalarNode ''schemas'',
          mapping [scalarNode ''Airport'', stringSchema]]])"


text \<open>The component the alternatives rewrite builds for the base name \<open>Airport\<close>, written out.\<close>

definition airportWithAlternatives :: node where
  "airportWithAlternatives =
     Node MappingNode [] []
       [scalarNode ''allOf'',
        Node SequenceNode [] []
          [Node MappingNode [] []
             [scalarNode ''$ref'', scalarNode ''#/components/schemas/Airport''],
           Node MappingNode [] []
             [scalarNode ''type'', scalarNode ''object'',
              scalarNode ''properties'',
              Node MappingNode [] []
                [scalarNode ''alternatives'',
                 Node MappingNode [] []
                   [scalarNode ''type'', scalarNode ''array'',
                    scalarNode ''description'',
                    scalarNode ''An array of other possible matches'',
                    scalarNode ''items'',
                    Node MappingNode [] []
                      [scalarNode ''$ref'', scalarNode ''#/components/schemas/Airport'']]]]]]"

text \<open>Two operations whose response schemas are the same instance of the alternatives idiom.\<close>

definition docTwoAlternatives :: node where
  "docTwoAlternatives =
     document (mapping
       [scalarNode ''paths'',
        mapping [scalarNode ''/airports/{id}'',
                 mapping [scalarNode ''get'',
                   operation ''get_airport'' (alternativesSchema airportBase)],
                 scalarNode ''/operators/{id}'',
                 mapping [scalarNode ''get'',
                   operation ''get_operator'' (alternativesSchema airportBase)]]])"

text \<open>Two operations whose base schemas differ and whose identifiers both give \<open>Airport\<close>.\<close>

definition docNameCollision :: node where
  "docNameCollision =
     document (mapping
       [scalarNode ''paths'',
        mapping [scalarNode ''/airports/{id}'',
                 mapping [scalarNode ''get'',
                   operation ''get_airport'' (alternativesSchema airportBase)],
                 scalarNode ''/airports'',
                 mapping [scalarNode ''get'',
                   operation ''list_airport'' (alternativesSchema operatorBase)]]])"

text \<open>The same two operations, in a document whose \<open>components.schemas\<close> is the null scalar.\<close>

definition docNullSchemas :: node where
  "docNullSchemas =
     document (mapping
       [scalarNode ''paths'',
        mapping [scalarNode ''/airports/{id}'',
                 mapping [scalarNode ''get'',
                   operation ''get_airport'' (alternativesSchema airportBase)],
                 scalarNode ''/airports'',
                 mapping [scalarNode ''get'',
                   operation ''list_airport'' (alternativesSchema operatorBase)]],
        scalarNode ''components'',
        mapping [scalarNode ''schemas'', Node ScalarNode ''!!null'' [] []]])"

text \<open>
  One operation with two responses of the alternatives idiom whose first \<open>allOf\<close> elements
  differ; three operations with plain schemas, the first and the last equal; and the same
  with a schema of the idiom between the two, its first \<open>allOf\<close> element equal to them.
\<close>

definition docTwoResponses :: node where
  "docTwoResponses =
     document (mapping
       [scalarNode ''paths'',
        mapping [scalarNode ''/airports/{id}'',
          mapping [scalarNode ''get'',
            mapping [scalarNode ''operationId'', scalarNode ''get_airport'',
              scalarNode ''responses'',
              mapping [scalarNode ''200'',
                       response ''application/json'' (alternativesSchema airportBase),
                       scalarNode ''404'',
                       response ''application/json'' (alternativesSchema operatorBase)]]]]])"

definition docThreePlain :: node where
  "docThreePlain =
     document (mapping
       [scalarNode ''paths'',
        mapping [scalarNode ''/a'', mapping [scalarNode ''get'', operation ''get_a'' objectSchema],
                 scalarNode ''/b'', mapping [scalarNode ''get'', operation ''get_b'' stringSchema],
                 scalarNode ''/c'', mapping [scalarNode ''get'', operation ''get_c'' objectSchema]]])"

definition docAlternativesBetween :: node where
  "docAlternativesBetween =
     document (mapping
       [scalarNode ''paths'',
        mapping [scalarNode ''/a'', mapping [scalarNode ''get'', operation ''get_a'' objectSchema],
                 scalarNode ''/airports/{id}'',
                 mapping [scalarNode ''get'',
                   operation ''get_airport'' (alternativesSchema objectSchema)],
                 scalarNode ''/c'', mapping [scalarNode ''get'', operation ''get_c'' objectSchema]]])"

text \<open>
  A response of \<open>get_airport\<close> with two media types: a reference under \<open>application/json\<close>
  and a schema of the alternatives idiom under \<open>application/json; charset=utf-8\<close>.
\<close>

definition docLaterSpelling :: node where
  "docLaterSpelling =
     document (mapping
       [scalarNode ''paths'',
        mapping [scalarNode ''/airports/{id}'',
          mapping [scalarNode ''get'',
            mapping [scalarNode ''operationId'', scalarNode ''get_airport'',
              scalarNode ''responses'',
              mapping [scalarNode ''200'',
                mapping [scalarNode ''content'',
                  mapping [scalarNode ''application/json'',
                           mapping [scalarNode ''schema'', refSchema ''Existing''],
                           scalarNode ''application/json; charset=utf-8'',
                           mapping [scalarNode ''schema'',
                                    alternativesSchema airportBase]]]]]]]])"

section \<open>Invariants of the walk\<close>

text \<open>
  The registry changes in \<open>processSchemaNode\<close> only. A property of the registry that every
  call of \<open>processSchemaNode\<close> on a mapping keeps is kept by each loop of the walk.
\<close>

definition keptBySchemaRewrite :: "golib \<Rightarrow> (schemaRegistry \<Rightarrow> bool) \<Rightarrow> bool" where
  "keptBySchemaRewrite lib P \<longleftrightarrow>
     (\<forall>path method oid status s r ch s' r'.
        processSchemaNode lib path method oid status s r = Inr (ch, s', r') \<longrightarrow>
        Kind s = MappingNode \<longrightarrow> P r \<longrightarrow> P r')"

text \<open>
  \<open>extends s s'\<close>: \<open>s'\<close> is \<open>s\<close> with whole key/value entries appended.
\<close>

definition extends :: "node \<Rightarrow> node \<Rightarrow> bool" where
  "extends s s' \<longleftrightarrow>
     Kind s' = Kind s \<and> (\<exists>ys. Content s' = Content s @ ys \<and> even (length ys))"

section \<open>What the registry keeps true\<close>

text \<open>The entries of a mapping: the value of each key scalar with the node stored under it.\<close>

fun pairsOf :: "node list \<Rightarrow> (string \<times> node) list" where
  "pairsOf (k # v # rest) = (Value k, v) # pairsOf rest"
| "pairsOf xs = []"

text \<open>
  \<open>oneSchemaPerName lib s\<close>: no two entries of \<open>s\<close> with the same name hold schemas with
  different fingerprints.
\<close>

definition oneSchemaPerName :: "golib \<Rightarrow> node \<Rightarrow> bool" where
  "oneSchemaPerName lib s \<longleftrightarrow>
     (\<forall>name v1 v2.
        (name, v1) \<in> set (pairsOf (Content s)) \<longrightarrow> (name, v2) \<in> set (pairsOf (Content s)) \<longrightarrow>
        schemaFingerprint lib v1 = schemaFingerprint lib v2)"

text \<open>
  \<open>registryTracks r\<close>: the schemas node of the registry is a mapping of whole entries, and
  \<open>existingNames\<close> holds exactly the names of its entries.
\<close>

definition registryTracks :: "schemaRegistry \<Rightarrow> bool" where
  "registryTracks r \<longleftrightarrow>
     Kind (schemasNode r) = MappingNode
     \<and> even (length (Content (schemasNode r)))
     \<and> fset (existingNames r) = fst ` set (pairsOf (Content (schemasNode r)))"

definition registryInvariant :: "golib \<Rightarrow> schemaRegistry \<Rightarrow> bool" where
  "registryInvariant lib r \<longleftrightarrow> registryTracks r \<and> oneSchemaPerName lib (schemasNode r)"

section \<open>The schemas the walk reaches\<close>

text \<open>
  To state what a run does to a whole document, the response schemas the walk reaches are
  listed in the order in which it reaches them. \<open>schemaOfResponse\<close> follows lines 279 to 306
  of \<open>processResponseSchema\<close>: the response is a mapping, its \<open>content\<close> is a mapping, the
  first JSON media type present is a mapping, and its \<open>schema\<close> is a mapping. A \<open>site\<close> is
  such a schema with the arguments \<open>processResponseSchema\<close> passes on with it: the path, the
  method, the operation identifier read at lines 240 to 244 and the status code.
\<close>

datatype site =
  Site (sitePath: string) (siteMethod: string) (siteOperationID: string) (siteStatus: string)
       (siteSchema: node)

definition schemaOfResponse :: "node \<Rightarrow> node option" where
  "schemaOfResponse responseNode =
     (if Kind responseNode \<noteq> MappingNode then None
      else
        (case getMapValue responseNode ''content'' of
           Inr (Some contentNode) \<Rightarrow>
             if Kind contentNode \<noteq> MappingNode then None
             else
               (case firstContentType contentNode contentTypes of
                  Inr (Some (contentType, appJSON)) \<Rightarrow>
                    if Kind appJSON \<noteq> MappingNode then None
                    else
                      (case getMapValue appJSON ''schema'' of
                         Inr (Some schemaNode) \<Rightarrow>
                           if Kind schemaNode \<noteq> MappingNode then None else Some schemaNode
                       | _ \<Rightarrow> None)
                | _ \<Rightarrow> None)
         | _ \<Rightarrow> None))"

definition sitesOfResponse :: "string \<Rightarrow> string \<Rightarrow> string \<Rightarrow> string \<Rightarrow> node \<Rightarrow> site list" where
  "sitesOfResponse path method operationID status responseNode =
     (case schemaOfResponse responseNode of
        None \<Rightarrow> []
      | Some schemaNode \<Rightarrow> [Site path method operationID status schemaNode])"

text \<open>The loop over the responses of an operation (lines 252 to 264).\<close>

fun sitesOfResponses :: "string \<Rightarrow> string \<Rightarrow> string \<Rightarrow> node list \<Rightarrow> site list" where
  "sitesOfResponses path method operationID (codeKey # codeVal # rest) =
     sitesOfResponse path method operationID (Value codeKey) codeVal
       @ sitesOfResponses path method operationID rest"
| "sitesOfResponses path method operationID xs = []"

text \<open>The operation identifier as lines 240 to 244 read it.\<close>

definition operationIdOf :: "node \<Rightarrow> string" where
  "operationIdOf methodVal =
     (case getMapValue methodVal ''operationId'' of
        Inr (Some n) \<Rightarrow> if Kind n = ScalarNode then Value n else []
      | _ \<Rightarrow> [])"

definition sitesOfOperation :: "string \<Rightarrow> node \<Rightarrow> node \<Rightarrow> site list" where
  "sitesOfOperation path methodKey methodVal =
     (if Value methodKey \<notin> set httpMethods \<or> Kind methodVal \<noteq> MappingNode then []
      else
        (case getMapValue methodVal ''responses'' of
           Inr (Some respNode) \<Rightarrow>
             if Kind respNode \<noteq> MappingNode then []
             else sitesOfResponses path (Value methodKey) (operationIdOf methodVal)
                    (Content respNode)
         | _ \<Rightarrow> []))"

fun sitesOfOperations :: "string \<Rightarrow> node list \<Rightarrow> site list" where
  "sitesOfOperations path (methodKey # methodVal # rest) =
     sitesOfOperation path methodKey methodVal @ sitesOfOperations path rest"
| "sitesOfOperations path xs = []"

fun sitesOfPaths :: "node list \<Rightarrow> site list" where
  "sitesOfPaths (pathKey # pathVal # rest) =
     (if Kind pathVal \<noteq> MappingNode then []
      else sitesOfOperations (Value pathKey) (Content pathVal))
       @ sitesOfPaths rest"
| "sitesOfPaths xs = []"

definition sites :: "node \<Rightarrow> site list" where
  "sites root =
     (case docAt root [''paths''] of
        Some pathsNode \<Rightarrow>
          if Kind pathsNode = MappingNode then sitesOfPaths (Content pathsNode) else []
      | None \<Rightarrow> [])"

text \<open>
  \<open>rewriteSites\<close> applies \<open>processSchemaNode\<close> to the sites of a list from left to right,
  passing the registry on, and returns the schemas after the calls and the last registry.
\<close>

fun rewriteSites ::
  "golib \<Rightarrow> site list \<Rightarrow> schemaRegistry \<Rightarrow> error + (node list \<times> schemaRegistry)" where
  "rewriteSites lib [] r = Inr ([], r)"
| "rewriteSites lib (x # rest) r =
     (case processSchemaNode lib (sitePath x) (siteMethod x) (siteOperationID x) (siteStatus x)
             (siteSchema x) r of
        Inl e \<Rightarrow> Inl e
      | Inr (changed, schemaNode', r') \<Rightarrow>
          (case rewriteSites lib rest r' of
             Inl e \<Rightarrow> Inl e
           | Inr (outs, r'') \<Rightarrow> Inr (schemaNode' # outs, r'')))"

text \<open>
  The node the registry of a run is seeded from (lines 206 to 208): \<open>components.schemas\<close>
  of the document, or the empty mapping \<open>ensureMapValue\<close> puts there.
\<close>

definition initialSchemas :: "node \<Rightarrow> node" where
  "initialSchemas root =
     (case docAt root [''components'', ''schemas''] of
        Some s \<Rightarrow> s
      | None \<Rightarrow> Node MappingNode [] [] [])"

text \<open>The test of lines 310 to 317 on a schema node: the alternatives idiom is found.\<close>

definition matchesIdiom :: "node \<Rightarrow> bool" where
  "matchesIdiom schemaNode =
     (case getMapValue schemaNode ''allOf'' of
        Inl e \<Rightarrow> False
      | Inr allOfNode \<Rightarrow>
          (case alternativesBase allOfNode of
             Inr (Some baseNode) \<Rightarrow> True
           | _ \<Rightarrow> False))"

text \<open>
  \<open>rewritten lib before r after r'\<close>: rewriting the sites \<open>before\<close> from registry \<open>r\<close> gives the
  schemas of the sites \<open>after\<close> and registry \<open>r'\<close>, and the sites are otherwise the same.
\<close>

definition sitePlace :: "site \<Rightarrow> string \<times> string \<times> string \<times> string" where
  "sitePlace x = (sitePath x, siteMethod x, siteOperationID x, siteStatus x)"

definition rewritten :: "golib \<Rightarrow> site list \<Rightarrow> schemaRegistry \<Rightarrow> site list \<Rightarrow> schemaRegistry \<Rightarrow> bool" where
  "rewritten lib before r after r' \<longleftrightarrow>
     rewriteSites lib before r = Inr (map siteSchema after, r')
     \<and> map sitePlace after = map sitePlace before"

text \<open>
  \<open>additions lib b r\<close>: the schemas node of \<open>r\<close> is \<open>b\<close> with whole entries appended, no two of
  them with the same fingerprint, and each of their fingerprints registered.
\<close>

definition additions :: "golib \<Rightarrow> node list \<Rightarrow> schemaRegistry \<Rightarrow> bool" where
  "additions lib b r \<longleftrightarrow>
     (\<exists>new. Content (schemasNode r) = b @ new \<and> even (length new)
        \<and> distinct (map (\<lambda>(name, v). schemaFingerprint lib v) (pairsOf new))
        \<and> (\<forall>(name, v) \<in> set (pairsOf new). byFingerprint r (schemaFingerprint lib v) \<noteq> None))"

text \<open>
  \<open>fingerprintsResolve lib r\<close>: each name registered for a fingerprint is the name of an
  entry of the schemas node whose schema has that fingerprint.
\<close>

definition fingerprintsResolve :: "golib \<Rightarrow> schemaRegistry \<Rightarrow> bool" where
  "fingerprintsResolve lib r \<longleftrightarrow>
     even (length (Content (schemasNode r)))
     \<and> (\<forall>fp name. byFingerprint r fp = Some name \<longrightarrow>
          (\<exists>v. (name, v) \<in> set (pairsOf (Content (schemasNode r)))
             \<and> schemaFingerprint lib v = fp))"

section \<open>Facts about the node helpers\<close>

lemma setContent_sel [simp]:
  "Kind (setContent n cs) = Kind n" "Tag (setContent n cs) = Tag n"
  "Value (setContent n cs) = Value n" "Content (setContent n cs) = cs"
  by (simp_all add: setContent_def)

lemma setContent_Content [simp]: "setContent n (Content n) = n"
  by (cases n) (simp add: setContent_def)

lemma setContent_setContent [simp]: "setContent (setContent n cs) cs' = setContent n cs'"
  by (simp add: setContent_def)

lemma cloneNode_id [simp]: "cloneNode n = n"
  by (induction n rule: cloneNode.induct) (simp add: map_idI)

lemma lookupPairs_updatePairs_same:
  "lookupPairs xs key = Inr (Some v) \<Longrightarrow> lookupPairs (updatePairs xs key v') key = Inr (Some v')"
  by (induction xs key rule: lookupPairs.induct) (auto split: if_splits)

lemma lookupPairs_updatePairs_other:
  "key' \<noteq> key \<Longrightarrow> lookupPairs (updatePairs xs key v') key' = lookupPairs xs key'"
  by (induction xs key rule: lookupPairs.induct) auto

lemma updatePairs_same:
  "lookupPairs xs key = Inr (Some v) \<Longrightarrow> updatePairs xs key v = xs"
  by (induction xs key rule: lookupPairs.induct) (auto split: if_splits)

lemma updatePairs_updatePairs [simp]:
  "updatePairs (updatePairs xs key v) key v' = updatePairs xs key v'"
  by (induction xs key v rule: updatePairs.induct) auto

lemma length_updatePairs [simp]: "length (updatePairs xs key v) = length xs"
  by (induction xs key v rule: updatePairs.induct) auto

lemma setMapValue_sel [simp]:
  "Kind (setMapValue m key v) = Kind m" "Tag (setMapValue m key v) = Tag m"
  "Value (setMapValue m key v) = Value m"
  by (simp_all add: setMapValue_def)

lemma getMapValue_setMapValue_same:
  "getMapValue m key = Inr (Some v) \<Longrightarrow> getMapValue (setMapValue m key v') key = Inr (Some v')"
  by (auto simp: getMapValue_def setMapValue_def lookupPairs_updatePairs_same split: if_splits)

lemma getMapValue_setMapValue_other:
  "key' \<noteq> key \<Longrightarrow> getMapValue (setMapValue m key v') key' = getMapValue m key'"
  by (simp add: getMapValue_def setMapValue_def lookupPairs_updatePairs_other)

lemma setMapValue_same:
  "getMapValue m key = Inr (Some v) \<Longrightarrow> setMapValue m key v = m"
  by (auto simp: getMapValue_def setMapValue_def updatePairs_same split: if_splits)

lemma setMapValue_setMapValue [simp]:
  "setMapValue (setMapValue m key v) key v' = setMapValue m key v'"
  by (simp add: setMapValue_def)

lemma getMapValue_Some_Kind:
  "getMapValue m key = Inr (Some v) \<Longrightarrow> Kind m = MappingNode"
  by (auto simp: getMapValue_def split: if_splits)

lemma makeRefOnlySchema_sel [simp]:
  "Kind (makeRefOnlySchema s name) = Kind s"
  "Content (makeRefOnlySchema s name) =
     [scalarNode ''$ref'', scalarNode (''#/components/schemas/'' @ name)]"
  by (simp_all add: makeRefOnlySchema_def)

lemma isRefOnly_makeRefOnly:
  "Kind s = MappingNode \<Longrightarrow> isRefOnlySchema (makeRefOnlySchema s name)"
  by (simp add: isRefOnlySchema_def scalarNode_def)

section \<open>Fallback naming\<close>

text \<open>
  C6. With an empty \<open>operationId\<close>, the path \<open>/flights/{id}/track\<close>, the method \<open>get\<close> and the
  status \<open>200\<close>, \<open>deriveResponseSchemaNameHint\<close> returns \<open>FlightsIdTrackGet200Response\<close>,
  whatever the Go library does outside ASCII.
\<close>

theorem fallback_naming:
  "deriveResponseSchemaNameHint lib ''/flights/{id}/track'' ''get'' '''' ''200''
     = Inr ''FlightsIdTrackGet200Response''"
  by (simp add: deriveResponseSchemaNameHint_def deriveSchemaName_def
      deriveNameFromPathAndMethod_def toPascalCase_def strings_ReplaceAll_def
      strings_HasPrefix_def strings_HasSuffix_def strings_ToLower_def upperFirstRune_def
      is_ascii_def ascii_lower_def ascii_upper_def char_of_def bit_Suc_0_iff)

section \<open>componentizeSchema leaves references alone\<close>

text \<open>
  C5. For a \<open>schemaNode\<close> that is nil, or not a mapping, or a mapping with exactly one entry
  whose key is \<open>$ref\<close>, \<open>componentizeSchema\<close> returns \<open>("", false, nil)\<close>; the node and the
  registry (its maps and the \<open>components.schemas\<close> node) are what they were.
\<close>

theorem componentize_noop:
  assumes "schemaNode = None
           \<or> (\<exists>n. schemaNode = Some n
                  \<and> (Kind n \<noteq> MappingNode \<or> (\<exists>k v. Content n = [k, v] \<and> Value k = ''$ref'')))"
  shows "componentizeSchema lib r schemaNode nameHint = Inr ([], False, schemaNode, r)"
  using assms by (auto simp: componentizeSchema_def isRefOnlySchema_def)

theorem componentize_noop_witness:
  "(\<exists>k v. Content (refSchema ''Airport'') = [k, v] \<and> Value k = ''$ref'')
   \<and> componentizeSchema exampleLib emptyRegistry (Some (refSchema ''Airport'')) ''Hint''
       = Inr ([], False, Some (refSchema ''Airport''), emptyRegistry)"
proof -
  have h: "\<exists>k v. Content (refSchema ''Airport'') = [k, v] \<and> Value k = ''$ref''"
    by (simp add: refSchema_def mapping_def scalarNode_def)
  then show ?thesis
    using componentize_noop [of "Some (refSchema ''Airport'')" exampleLib emptyRegistry "''Hint''"]
    by blast
qed

section \<open>Runs on the example documents\<close>

lemma refactor_docEmptyPaths:
  "RefactorInlineResponseSchemas exampleLib docEmptyPaths =
     Inr (False, document (mapping [scalarNode ''paths'', mapping [],
                   scalarNode ''components'',
                   Node MappingNode [] [] [scalarNode ''schemas'', Node MappingNode [] [] []]]))"
  by code_simp

lemma refactor_docNoPaths:
  "RefactorInlineResponseSchemas exampleLib docNoPaths = Inl InvalidPaths"
  by code_simp

lemma refactor_docInline_changed:
  "fst (projr (RefactorInlineResponseSchemas exampleLib docInline)) = True"
  "isl (RefactorInlineResponseSchemas exampleLib docInline) = False"
  by code_simp+

section \<open>An unchanged document is not written\<close>

text \<open>
  C10. When the refactoring reports \<open>changed == false\<close> and \<open>DryRun\<close> is false, \<open>FormatFile\<close>
  returns nil and no file is created, truncated or written; so too when \<open>FormatCmd.Run\<close>
  defaults the output to the input path.
\<close>

theorem unchanged_document_not_written:
  assumes "files inPath = Some text"
    and "decode sys text = Some root"
    and "RefactorInlineResponseSchemas lib root = Inr (False, root')"
    and "\<not> DryRun opts"
  shows "FormatFile lib sys inPath outPath opts files = (None, files)
         \<and> Run lib sys \<lparr>Input = inPath, Output = [], CmdDryRun = False, CmdVerbose = v\<rparr> files
             = (None, files)"
  using assms by (simp add: FormatFile_def Run_def)

theorem unchanged_document_not_written_witness:
  "exampleFiles ''empty.yaml'' = Some ''empty''
   \<and> decode exampleSys ''empty'' = Some docEmptyPaths
   \<and> isl (RefactorInlineResponseSchemas exampleLib docEmptyPaths) = False
   \<and> fst (projr (RefactorInlineResponseSchemas exampleLib docEmptyPaths)) = False
   \<and> DryRun writeOptions = False
   \<and> FormatFile exampleLib exampleSys ''empty.yaml'' ''out.yaml'' writeOptions exampleFiles
       = (None, exampleFiles)
   \<and> Run exampleLib exampleSys
         \<lparr>Input = ''empty.yaml'', Output = [], CmdDryRun = False, CmdVerbose = True\<rparr> exampleFiles
       = (None, exampleFiles)"
proof -
  have f: "exampleFiles ''empty.yaml'' = Some ''empty''"
    by (simp add: exampleFiles_def)
  have d: "decode exampleSys ''empty'' = Some docEmptyPaths"
    by (simp add: exampleSys_def)
  obtain root' where r: "RefactorInlineResponseSchemas exampleLib docEmptyPaths = Inr (False, root')"
    using refactor_docEmptyPaths by blast
  have o: "\<not> DryRun writeOptions"
    by (simp add: writeOptions_def)
  show ?thesis
    using unchanged_document_not_written
            [where files = exampleFiles and inPath = "''empty.yaml''" and outPath = "''out.yaml''"
               and v = True, OF f d r o] f d r o
    by simp
qed

section \<open>What a failure leaves at the destination\<close>

text \<open>
  C8 as stated fails: \<open>FormatFile\<close> opens the destination with \<open>os.Create\<close>, which truncates
  it, and lets the encoder write into it. When the encoder fails (a full disk, say), the
  destination holds what had been written and the old content is gone.
\<close>

theorem encode_failure_leaves_partial_output:
  "fst (FormatFile exampleLib diskFullSys ''inline.yaml'' ''out.yaml'' writeOptions exampleFiles)
     = Some EncodeYAML
   \<and> snd (FormatFile exampleLib diskFullSys ''inline.yaml'' ''out.yaml'' writeOptions exampleFiles)
       ''out.yaml'' = Some ''enc''
   \<and> exampleFiles ''out.yaml'' = Some ''old''"
  by code_simp


text \<open>
  C8, amended. No file is touched unless the in-memory rewrite has succeeded with a change
  (and this is not a dry run); then only the destination is written. A failure to open,
  decode, refactor or create leaves every file as it was.
\<close>

theorem destination_untouched_unless_encoding:
  assumes "FormatFile lib sys inPath outPath opts files = (err, files')"
  shows "(err \<noteq> None \<and> err \<noteq> Some EncodeYAML \<longrightarrow> files' = files)
       \<and> (files' \<noteq> files \<longrightarrow>
            (\<exists>text root root'.
               files inPath = Some text \<and> decode sys text = Some root
               \<and> RefactorInlineResponseSchemas lib root = Inr (True, root')
               \<and> \<not> DryRun opts \<and> creatable sys outPath
               \<and> files' = files(outPath \<mapsto> fst (encode sys root'))))"
  using assms
  by (auto simp: FormatFile_def split: option.splits sum.splits if_splits prod.splits)

theorem destination_untouched_unless_encoding_witness:
  "fst (FormatFile exampleLib exampleSys ''nopaths.yaml'' ''out.yaml'' writeOptions exampleFiles)
     = Some (Refactor InvalidPaths)
   \<and> snd (FormatFile exampleLib exampleSys ''nopaths.yaml'' ''out.yaml'' writeOptions exampleFiles)
       = exampleFiles
   \<and> snd (FormatFile exampleLib exampleSys ''inline.yaml'' ''out.yaml'' writeOptions exampleFiles)
       \<noteq> exampleFiles
   \<and> (\<exists>text root root'.
         exampleFiles ''inline.yaml'' = Some text \<and> decode exampleSys text = Some root
         \<and> RefactorInlineResponseSchemas exampleLib root = Inr (True, root'))"
proof -
  let ?R1 = "FormatFile exampleLib exampleSys ''nopaths.yaml'' ''out.yaml'' writeOptions exampleFiles"
  let ?R2 = "FormatFile exampleLib exampleSys ''inline.yaml'' ''out.yaml'' writeOptions exampleFiles"
  have e1: "fst ?R1 = Some (Refactor InvalidPaths)"
    by code_simp
  have p1: "?R1 = (fst ?R1, snd ?R1)" and p2: "?R2 = (fst ?R2, snd ?R2)"
    by simp_all
  have s1: "snd ?R1 = exampleFiles"
    using destination_untouched_unless_encoding [OF p1] e1 by simp
  have "snd ?R2 ''out.yaml'' = Some ''encoded''" "exampleFiles ''out.yaml'' = Some ''old''"
    by code_simp+
  then have n2: "snd ?R2 \<noteq> exampleFiles"
    by auto
  have "\<exists>text root root'.
         exampleFiles ''inline.yaml'' = Some text \<and> decode exampleSys text = Some root
         \<and> RefactorInlineResponseSchemas exampleLib root = Inr (True, root')"
    using destination_untouched_unless_encoding [OF p2] n2 by blast
  with e1 s1 n2 show ?thesis by blast
qed

section \<open>Every rewritten schema is a reference\<close>

lemma componentizeSchema_result:
  assumes "componentizeSchema lib r (Some s) hint = Inr (name, ch, after, r')"
    and "Kind s = MappingNode"
  shows "\<exists>s'. after = Some s' \<and> isRefOnlySchema s' \<and> Kind s' = MappingNode"
  using assms
  by (auto simp: componentizeSchema_def Let_def isRefOnly_makeRefOnly
           split: if_splits option.splits sum.splits)

lemma componentizeInline_result:
  assumes "componentizeInline lib path method oid status s r = Inr (ch, s', r')"
    and "Kind s = MappingNode"
  shows "isRefOnlySchema s' \<and> Kind s' = MappingNode"
  using assms
  by (auto simp: componentizeInline_def pointee_def split: sum.splits
           dest!: componentizeSchema_result)

lemma handleAlternativesPattern_result:
  assumes "handleAlternativesPattern lib path method oid status s b r = Inr (ch, s', r')"
    and "Kind s = MappingNode"
  shows "isRefOnlySchema s' \<and> Kind s' = MappingNode"
  using assms
  by (auto simp: handleAlternativesPattern_def pointee_def Let_def isRefOnly_makeRefOnly
           split: sum.splits if_splits dest!: componentizeSchema_result)

lemma processSchemaNode_result:
  assumes "processSchemaNode lib path method oid status s r = Inr (ch, s', r')"
    and "Kind s = MappingNode"
  shows "isRefOnlySchema s' \<and> Kind s' = MappingNode"
  using assms
  by (auto simp: processSchemaNode_def split: if_splits sum.splits option.splits
           dest: componentizeInline_result handleAlternativesPattern_result)

lemma firstContentType_select:
  assumes "\<forall>c \<in> set before. getMapValue contentNode c = Inr None"
    and "getMapValue contentNode contentType = Inr (Some appJSON)"
  shows "firstContentType contentNode (before @ contentType # after)
           = Inr (Some (contentType, appJSON))"
  using assms by (induction before) auto

lemma Inr_collapse3:
  "\<not> isl x \<Longrightarrow> x = Inr (fst (projr x), fst (snd (projr x)), snd (snd (projr x)))"
  by (cases x) auto

lemma componentizeSchema_changed:
  assumes "componentizeSchema lib r (Some s) hint = Inr (name, ch, after, r')"
    and "Kind s = MappingNode"
  shows "ch = (\<not> isRefOnlySchema s)"
  using assms
  by (auto simp: componentizeSchema_def Let_def split: if_splits option.splits sum.splits)

lemma processSchemaNode_changed:
  assumes "processSchemaNode lib path method oid status s r = Inr (ch, s', r')"
    and "Kind s = MappingNode"
  shows "ch = (\<not> isRefOnlySchema s)"
  using assms
  by (auto simp: processSchemaNode_def componentizeInline_def handleAlternativesPattern_def Let_def
           split: if_splits sum.splits option.splits dest: componentizeSchema_changed)

section \<open>The order of the JSON media types\<close>

text \<open>
  C7. Let a response have a \<open>content\<close> mapping, and let \<open>contentType\<close> be the first of
  \<open>application/json; charset=UTF-8\<close>, \<open>application/json\<close>, \<open>application/json; charset=utf-8\<close>
  (in this order) that is a key of it. Then \<open>processResponseSchema\<close> works on the entry under
  \<open>contentType\<close> and on no other. Every other entry of the \<open>content\<close> mapping, a later
  spelling included, is what it was, and if anything changed, it is the schema under
  \<open>contentType\<close> that is now a reference. And the entry under \<open>contentType\<close> is the one
  selected: when it is a mapping whose \<open>schema\<close> is a mapping, that schema is what
  \<open>processSchemaNode\<close> is applied to, the result is written back under \<open>contentType\<close>, where
  the schema is now a reference, and \<open>changed\<close> is reported exactly when the schema was not
  a reference already.
\<close>

theorem content_type_priority:
  assumes run: "processResponseSchema lib path method operationID status responseNode r
                  = Inr (changed, responseNode', r')"
    and content: "getMapValue responseNode ''content'' = Inr (Some contentNode)"
    and kind: "Kind contentNode = MappingNode"
    and order: "[''application/json; charset=UTF-8'', ''application/json'',
                 ''application/json; charset=utf-8''] = before @ contentType # after"
    and absent: "\<forall>c \<in> set before. getMapValue contentNode c = Inr None"
    and present: "getMapValue contentNode contentType = Inr (Some appJSON)"
  shows "\<exists>contentNode'.
           getMapValue responseNode' ''content'' = Inr (Some contentNode')
         \<and> (\<forall>c. c \<noteq> contentType \<longrightarrow> getMapValue contentNode' c = getMapValue contentNode c)
         \<and> (changed \<longrightarrow>
              (\<exists>appJSON' schemaNode'.
                 getMapValue contentNode' contentType = Inr (Some appJSON')
               \<and> getMapValue appJSON' ''schema'' = Inr (Some schemaNode')
               \<and> isRefOnlySchema schemaNode'))
         \<and> (\<forall>schemaNode.
               Kind appJSON = MappingNode
               \<and> getMapValue appJSON ''schema'' = Inr (Some schemaNode)
               \<and> Kind schemaNode = MappingNode \<longrightarrow>
                 (\<exists>schemaNode'.
                    processSchemaNode lib path method operationID status schemaNode r
                      = Inr (changed, schemaNode', r')
                  \<and> getMapValue contentNode' contentType
                      = Inr (Some (setMapValue appJSON ''schema'' schemaNode'))
                  \<and> getMapValue (setMapValue appJSON ''schema'' schemaNode') ''schema''
                      = Inr (Some schemaNode')
                  \<and> isRefOnlySchema schemaNode'
                  \<and> changed = (\<not> isRefOnlySchema schemaNode)))"
proof -
  have sel: "firstContentType contentNode contentTypes = Inr (Some (contentType, appJSON))"
    using firstContentType_select [OF absent present] order by (simp add: contentTypes_def)
  have rk: "Kind responseNode = MappingNode"
    using content by (rule getMapValue_Some_Kind)
  show ?thesis
  proof (cases "Kind appJSON = MappingNode")
    case False
    with run content kind sel rk have "responseNode' = responseNode" "\<not> changed"
      by (auto simp: processResponseSchema_def)
    with content False show ?thesis by auto
  next
    case aj: True
    show ?thesis
    proof (cases "getMapValue appJSON ''schema''")
      case (Inl e)
      with run content kind sel rk aj show ?thesis
        by (simp add: processResponseSchema_def)
    next
      case (Inr found)
      show ?thesis
      proof (cases "found = None \<or> (\<exists>s. found = Some s \<and> Kind s \<noteq> MappingNode)")
        case True
        with run content kind sel rk aj Inr have "responseNode' = responseNode" "\<not> changed"
          by (auto simp: processResponseSchema_def)
        with content True Inr show ?thesis by auto
      next
        case False
        then obtain s where s: "found = Some s" "Kind s = MappingNode" by auto
        with run content kind sel rk aj Inr obtain s' where
          p: "processSchemaNode lib path method operationID status s r = Inr (changed, s', r')"
          and r': "responseNode' = setMapValue responseNode ''content''
                     (setMapValue contentNode contentType (setMapValue appJSON ''schema'' s'))"
          by (auto simp: processResponseSchema_def split: sum.splits)
        let ?c = "setMapValue contentNode contentType (setMapValue appJSON ''schema'' s')"
        have 1: "getMapValue responseNode' ''content'' = Inr (Some ?c)"
          using content r' by (simp add: getMapValue_setMapValue_same)
        have 2: "\<forall>c. c \<noteq> contentType \<longrightarrow> getMapValue ?c c = getMapValue contentNode c"
          by (simp add: getMapValue_setMapValue_other)
        have 3: "getMapValue ?c contentType = Inr (Some (setMapValue appJSON ''schema'' s'))"
          using present by (simp add: getMapValue_setMapValue_same)
        have 4: "getMapValue (setMapValue appJSON ''schema'' s') ''schema'' = Inr (Some s')"
          using Inr s by (simp add: getMapValue_setMapValue_same)
        have 5: "isRefOnlySchema s'"
          using processSchemaNode_result [OF p s(2)] by simp
        have 6: "changed = (\<not> isRefOnlySchema s)"
          using processSchemaNode_changed [OF p s(2)] .
        have 7: "\<forall>schemaNode.
               Kind appJSON = MappingNode
               \<and> getMapValue appJSON ''schema'' = Inr (Some schemaNode)
               \<and> Kind schemaNode = MappingNode \<longrightarrow>
                 (\<exists>schemaNode'.
                    processSchemaNode lib path method operationID status schemaNode r
                      = Inr (changed, schemaNode', r')
                  \<and> getMapValue ?c contentType
                      = Inr (Some (setMapValue appJSON ''schema'' schemaNode'))
                  \<and> getMapValue (setMapValue appJSON ''schema'' schemaNode') ''schema''
                      = Inr (Some schemaNode')
                  \<and> isRefOnlySchema schemaNode'
                  \<and> changed = (\<not> isRefOnlySchema schemaNode))"
          using p 3 4 5 6 Inr s by auto
        have 8: "changed \<longrightarrow>
              (\<exists>appJSON' schemaNode'.
                 getMapValue ?c contentType = Inr (Some appJSON')
               \<and> getMapValue appJSON' ''schema'' = Inr (Some schemaNode')
               \<and> isRefOnlySchema schemaNode')"
          using 3 4 5 by blast
        show ?thesis
          by (rule exI [of _ ?c]) (intro conjI 1 2 7 8)
      qed
    qed
  qed
qed



theorem content_type_priority_witness:
  "getMapValue twoTypes ''content'' = Inr (Some twoTypesContent)
   \<and> Kind twoTypesContent = MappingNode
   \<and> getMapValue twoTypesContent ''application/json; charset=UTF-8'' = Inr None
   \<and> getMapValue twoTypesContent ''application/json''
       = Inr (Some (mapping [scalarNode ''schema'', objectSchema]))
   \<and> (\<exists>responseNode' r' contentNode' appJSON' schemaNode'.
         processResponseSchema exampleLib ''/a'' ''get'' ''get_a'' ''200'' twoTypes emptyRegistry
           = Inr (True, responseNode', r')
       \<and> getMapValue responseNode' ''content'' = Inr (Some contentNode')
       \<and> getMapValue contentNode' ''application/json; charset=utf-8''
           = Inr (Some (mapping [scalarNode ''schema'', stringSchema]))
       \<and> getMapValue contentNode' ''application/json'' = Inr (Some appJSON')
       \<and> getMapValue appJSON' ''schema'' = Inr (Some schemaNode')
       \<and> isRefOnlySchema schemaNode')"
proof -
  let ?X = "processResponseSchema exampleLib ''/a'' ''get'' ''get_a'' ''200'' twoTypes emptyRegistry"
  let ?aj = "mapping [scalarNode ''schema'', objectSchema]"
  have c: "getMapValue twoTypes ''content'' = Inr (Some twoTypesContent)"
    by code_simp
  have k: "Kind twoTypesContent = MappingNode"
    by code_simp
  have a': "getMapValue twoTypesContent ''application/json; charset=UTF-8'' = Inr None"
    by code_simp
  then have a: "\<forall>c \<in> set [''application/json; charset=UTF-8'']. getMapValue twoTypesContent c = Inr None"
    by simp
  have p: "getMapValue twoTypesContent ''application/json'' = Inr (Some ?aj)"
    by code_simp
  have l: "getMapValue twoTypesContent ''application/json; charset=utf-8''
             = Inr (Some (mapping [scalarNode ''schema'', stringSchema]))"
    by code_simp
  have s: "Kind ?aj = MappingNode" "getMapValue ?aj ''schema'' = Inr (Some objectSchema)"
    "Kind objectSchema = MappingNode" "\<not> isRefOnlySchema objectSchema"
    by code_simp+
  have "\<not> isl ?X"
    by code_simp
  then obtain changed responseNode' r' where run: "?X = Inr (changed, responseNode', r')"
    using Inr_collapse3 [of ?X] by metis
  have o: "[''application/json; charset=UTF-8'', ''application/json'',
            ''application/json; charset=utf-8'']
           = [''application/json; charset=UTF-8''] @ ''application/json''
               # [''application/json; charset=utf-8'']"
    by simp
  from content_type_priority [OF run c k o a p] l s
  obtain contentNode' schemaNode' where f:
    "getMapValue responseNode' ''content'' = Inr (Some contentNode')"
    "getMapValue contentNode' ''application/json; charset=utf-8''
       = Inr (Some (mapping [scalarNode ''schema'', stringSchema]))"
    "getMapValue contentNode' ''application/json'' = Inr (Some (setMapValue ?aj ''schema'' schemaNode'))"
    "getMapValue (setMapValue ?aj ''schema'' schemaNode') ''schema'' = Inr (Some schemaNode')"
    "isRefOnlySchema schemaNode'"
    "changed = True"
    by fastforce
  have "\<exists>responseNode' r' contentNode' appJSON' schemaNode'.
         processResponseSchema exampleLib ''/a'' ''get'' ''get_a'' ''200'' twoTypes emptyRegistry
           = Inr (True, responseNode', r')
       \<and> getMapValue responseNode' ''content'' = Inr (Some contentNode')
       \<and> getMapValue contentNode' ''application/json; charset=utf-8''
           = Inr (Some (mapping [scalarNode ''schema'', stringSchema]))
       \<and> getMapValue contentNode' ''application/json'' = Inr (Some appJSON')
       \<and> getMapValue appJSON' ''schema'' = Inr (Some schemaNode')
       \<and> isRefOnlySchema schemaNode'"
    using run f by (intro exI conjI) (simp, assumption+)
  with c k a' p show ?thesis
    by (intro conjI) assumption+
qed

text \<open>
  A response whose only media type is the last of the three spellings is rewritten under
  that spelling.
\<close>

lemma last_spelling_alone_is_selected:
  "\<exists>r'. processResponseSchema exampleLib ''/a'' ''get'' ''get_a'' ''200''
           (response ''application/json; charset=utf-8'' objectSchema) emptyRegistry
         = Inr (True, response ''application/json; charset=utf-8'' (refSchema ''A200Response''), r')"
proof -
  let ?X = "processResponseSchema exampleLib ''/a'' ''get'' ''get_a'' ''200''
              (response ''application/json; charset=utf-8'' objectSchema) emptyRegistry"
  have "\<not> isl ?X" "fst (projr ?X) = True"
    "fst (snd (projr ?X)) = response ''application/json; charset=utf-8'' (refSchema ''A200Response'')"
    by code_simp+
  then show ?thesis
    using Inr_collapse3 [of ?X] by metis
qed

section \<open>Facts about the registry and the alternatives idiom\<close>

lemma lookupPairs_append:
  "lookupPairs xs key = Inr found \<Longrightarrow>
   lookupPairs (xs @ [k, v]) key =
     (case found of
        Some x \<Rightarrow> Inr (Some x)
      | None \<Rightarrow> if Value k = key then Inr (Some v) else Inr None)"
  by (induction xs key rule: lookupPairs.induct) (auto split: if_splits)

lemma appendMapEntry_sel [simp]:
  "Kind (appendMapEntry m name v) = Kind m"
  "Content (appendMapEntry m name v) = Content m @ [scalarNode name, v]"
  by (simp_all add: appendMapEntry_def)

lemma Value_scalarNode [simp]: "Value (scalarNode s) = s"
  by (simp add: scalarNode_def)

lemma getMapValue_appendMapEntry:
  "Kind m = MappingNode \<Longrightarrow> getMapValue m key = Inr found \<Longrightarrow>
   getMapValue (appendMapEntry m name v) key =
     (case found of
        Some x \<Rightarrow> Inr (Some x)
      | None \<Rightarrow> if name = key then Inr (Some v) else Inr None)"
  by (simp add: getMapValue_def lookupPairs_append)

lemma registerSchema_sel [simp]:
  "schemasNode (registerSchema lib r name n) = appendMapEntry (schemasNode r) name n"
  "existingNames (registerSchema lib r name n) = finsert name (existingNames r)"
  "byFingerprint (registerSchema lib r name n) = (byFingerprint r)(schemaFingerprint lib n \<mapsto> name)"
  by (simp_all add: registerSchema_def)

lemma deriveSchemaName_get_airport: "deriveSchemaName lib ''get_airport'' = Inr ''Airport''"
  by (simp add: deriveSchemaName_def prefixes_def strings_HasPrefix_def strings_ToLower_def
      toPascalCase_def strings_ReplaceAll_def upperFirstRune_def is_ascii_def ascii_lower_def
      ascii_upper_def char_of_def bit_Suc_0_iff)

lemma not_refOnly_if_allOf:
  "getMapValue s ''allOf'' = Inr (Some a) \<Longrightarrow> \<not> isRefOnlySchema s"
  by (cases s) (auto simp: isRefOnlySchema_def getMapValue_def numeral_2_eq_2 length_Suc_conv
      split: if_splits)


lemma buildCompositeSchema_Airport: "buildCompositeSchema ''Airport'' = airportWithAlternatives"
  by (simp add: buildCompositeSchema_def airportWithAlternatives_def Let_def)

lemma isInlineObjectWithAlternatives_shape:
  assumes "getMapValue baseNode ''type'' = Inr (Some baseType)" "Value baseType = ''object''"
    and "getMapValue extNode ''type'' = Inr (Some extType)" "Value extType = ''object''"
    and "getMapValue extNode ''properties'' = Inr (Some extProps)"
    and "getMapValue extProps ''alternatives'' = Inr (Some alts)"
    and "getMapValue alts ''type'' = Inr (Some altType)" "Value altType = ''array''"
    and "getMapValue alts ''items'' = Inr (Some items)"
    and "getMapValue items ''type'' = Inr (Some itemsType)" "Value itemsType = ''object''"
  shows "isInlineObjectWithAlternatives baseNode extNode = Inr True"
proof -
  have "Kind baseNode = MappingNode" "Kind extNode = MappingNode" "Kind extProps = MappingNode"
    "Kind alts = MappingNode" "Kind items = MappingNode"
    using assms by (auto dest: getMapValue_Some_Kind)
  then show ?thesis
    using assms by (simp add: isInlineObjectWithAlternatives_def withField_def)
qed

section \<open>The alternatives idiom\<close>

text \<open>
  C3 as stated fails: \<open>handleAlternativesPattern\<close> adds a component only when
  \<open>components.schemas\<close> has no entry of that name. In \<open>docAirportTaken\<close> the component
  \<open>Airport\<close> exists already, with another schema; after the transform it is still that
  schema and not a clone of the first \<open>allOf\<close> element.
\<close>

theorem existing_Airport_is_kept:
  "docAt docAirportTaken (schemaPlace ''/airports/{id}'' ''get'' ''200'')
     = Some (alternativesSchema airportBase)
   \<and> \<not> isl (RefactorInlineResponseSchemas exampleLib docAirportTaken)
   \<and> docAt (snd (projr (RefactorInlineResponseSchemas exampleLib docAirportTaken)))
         [''components'', ''schemas'', ''Airport'']
       = Some stringSchema
   \<and> stringSchema \<noteq> airportBase"
  by code_simp


text \<open>
  One call of \<open>processSchemaNode\<close> on a schema of the idiom, with the operation identifier
  \<open>get_airport\<close> and a registry whose schemas node is a mapping: the schema becomes a single
  \<open>$ref\<close> to \<open>AirportWithAlternatives\<close>; \<open>Airport\<close>, a clone of the first \<open>allOf\<close> element, is
  appended if the schemas node has no entry of that name, and so is \<open>AirportWithAlternatives\<close>;
  an entry that exists is kept as it is.
\<close>

lemma alternatives_rewrite_call:
  assumes allOf: "getMapValue schemaNode ''allOf'' = Inr (Some allOfNode)"
    and seq: "Kind allOfNode = SequenceNode" "Content allOfNode = [baseNode, extNode]"
    and base: "getMapValue baseNode ''type'' = Inr (Some baseType)" "Value baseType = ''object''"
    and ext: "getMapValue extNode ''type'' = Inr (Some extType)" "Value extType = ''object''"
    and props: "getMapValue extNode ''properties'' = Inr (Some extProps)"
    and alts: "getMapValue extProps ''alternatives'' = Inr (Some alts)"
    and altType: "getMapValue alts ''type'' = Inr (Some altType)" "Value altType = ''array''"
    and items: "getMapValue alts ''items'' = Inr (Some items)"
    and itemsType: "getMapValue items ''type'' = Inr (Some itemsType)"
      "Value itemsType = ''object''"
    and schemas: "Kind (schemasNode r) = MappingNode"
    and found1: "getMapValue (schemasNode r) ''Airport'' = Inr found1"
    and found2: "getMapValue (schemasNode r) ''AirportWithAlternatives'' = Inr found2"
  shows "\<exists>r'. processSchemaNode lib path method ''get_airport'' status schemaNode r
                = Inr (True,
                       setContent schemaNode
                         [scalarNode ''$ref'',
                          scalarNode ''#/components/schemas/AirportWithAlternatives''],
                       r')
            \<and> Content (schemasNode r')
                = Content (schemasNode r)
                  @ (if found1 = None then [scalarNode ''Airport'', baseNode] else [])
                  @ (if found2 = None
                     then [scalarNode ''AirportWithAlternatives'', airportWithAlternatives]
                     else [])
            \<and> getMapValue (schemasNode r') ''Airport''
                = Inr (Some (case found1 of None \<Rightarrow> baseNode | Some old \<Rightarrow> old))
            \<and> getMapValue (schemasNode r') ''AirportWithAlternatives''
                = Inr (Some (case found2 of None \<Rightarrow> airportWithAlternatives | Some old \<Rightarrow> old))"
proof -
  have shape: "isInlineObjectWithAlternatives baseNode extNode = Inr True"
    using base ext props alts altType items itemsType
    by (rule isInlineObjectWithAlternatives_shape)
  have ab: "alternativesBase (Some allOfNode) = Inr (Some baseNode)"
    using seq shape by (simp add: alternativesBase_def)
  define r1 where
    "r1 = (if found1 = None then registerSchema lib r ''Airport'' (cloneNode baseNode) else r)"
  define r2 where
    "r2 = (if found2 = None
           then registerSchema lib r1 ''AirportWithAlternatives'' (buildCompositeSchema ''Airport'')
           else r1)"
  have k1: "Kind (schemasNode r1) = MappingNode"
    using schemas by (simp add: r1_def)
  have a1: "getMapValue (schemasNode r1) ''Airport''
              = Inr (Some (case found1 of None \<Rightarrow> baseNode | Some old \<Rightarrow> old))"
    using getMapValue_appendMapEntry [OF schemas found1, of "''Airport''" baseNode] found1
    by (auto simp: r1_def split: option.splits)
  have c1: "getMapValue (schemasNode r1) ''AirportWithAlternatives'' = Inr found2"
    using getMapValue_appendMapEntry [OF schemas found2, of "''Airport''" baseNode] found2
    by (auto simp: r1_def split: option.splits)
  have run: "processSchemaNode lib path method ''get_airport'' status schemaNode r
               = Inr (True, makeRefOnlySchema schemaNode ''AirportWithAlternatives'', r2)"
    using not_refOnly_if_allOf [OF allOf] allOf ab found1 c1
    by (simp add: processSchemaNode_def handleAlternativesPattern_def
        deriveSchemaName_get_airport r1_def r2_def Let_def)
  have a2: "getMapValue (schemasNode r2) ''Airport''
              = Inr (Some (case found1 of None \<Rightarrow> baseNode | Some old \<Rightarrow> old))"
    using getMapValue_appendMapEntry [OF k1 a1, of "''AirportWithAlternatives''"] a1
    by (simp add: r2_def)
  have c2: "getMapValue (schemasNode r2) ''AirportWithAlternatives''
              = Inr (Some (case found2 of None \<Rightarrow> airportWithAlternatives | Some old \<Rightarrow> old))"
    using getMapValue_appendMapEntry [OF k1 c1, of "''AirportWithAlternatives''"] c1
    by (auto simp: r2_def buildCompositeSchema_Airport split: option.splits)
  have cont: "Content (schemasNode r2)
                = Content (schemasNode r)
                  @ (if found1 = None then [scalarNode ''Airport'', baseNode] else [])
                  @ (if found2 = None
                     then [scalarNode ''AirportWithAlternatives'', airportWithAlternatives]
                     else [])"
    by (simp add: r1_def r2_def buildCompositeSchema_Airport)
  show ?thesis
    using run a2 c2 cont by (auto simp: makeRefOnlySchema_def)
qed

section \<open>Deduplication by fingerprint\<close>

text \<open>
  C2 as stated fails: a response schema that matches the alternatives idiom is named from
  its \<open>operationId\<close>, and \<open>handleAlternativesPattern\<close> never looks a fingerprint up. Two equal
  schemas of that shape at \<open>get_airport\<close> and \<open>get_operator\<close> end as references to two
  components.
\<close>

theorem equal_alternatives_get_two_names:
  "docAt docTwoAlternatives (schemaPlace ''/airports/{id}'' ''get'' ''200'')
     = Some (alternativesSchema airportBase)
   \<and> docAt docTwoAlternatives (schemaPlace ''/operators/{id}'' ''get'' ''200'')
       = Some (alternativesSchema airportBase)
   \<and> \<not> isl (RefactorInlineResponseSchemas exampleLib docTwoAlternatives)
   \<and> docAt (snd (projr (RefactorInlineResponseSchemas exampleLib docTwoAlternatives)))
         (schemaPlace ''/airports/{id}'' ''get'' ''200'')
       = Some (refSchema ''AirportWithAlternatives'')
   \<and> docAt (snd (projr (RefactorInlineResponseSchemas exampleLib docTwoAlternatives)))
         (schemaPlace ''/operators/{id}'' ''get'' ''200'')
       = Some (refSchema ''OperatorWithAlternatives'')"
  by code_simp

lemma uniqueLoop_free: "name |\<notin>| names \<Longrightarrow> uniqueLoop names base name i = name"
  by (subst uniqueLoop.simps) simp

section \<open>Lifting a registry invariant through the walk\<close>

lemma keptD:
  "keptBySchemaRewrite lib P \<Longrightarrow>
   processSchemaNode lib path method oid status s r = Inr (ch, s', r') \<Longrightarrow>
   Kind s = MappingNode \<Longrightarrow> P r \<Longrightarrow> P r'"
  unfolding keptBySchemaRewrite_def by blast

lemma processResponseSchema_lift:
  assumes "keptBySchemaRewrite lib P"
    and "processResponseSchema lib path method oid status c r = Inr (ch, c', r')"
    and "P r"
  shows "P r'"
  using assms(2,3)
  by (auto simp: processResponseSchema_def split: if_splits sum.splits option.splits prod.splits
      dest: keptD [OF assms(1)])

lemma walkResponses_lift:
  "keptBySchemaRewrite lib P \<Longrightarrow>
   walkResponses lib path meth oid xs r = Inr (ch, xs', r') \<Longrightarrow> P r \<Longrightarrow> P r'"
proof (induction lib path meth oid xs r arbitrary: ch xs' r' rule: walkResponses.induct)
  case (3 lib path meth oid codeKey codeVal rest r)
  from "3.prems"(2) obtain ch1 c1 r1 ch2 rest2 where
    a: "processResponseSchema lib path meth oid (Value codeKey) codeVal r = Inr (ch1, c1, r1)"
    and b: "walkResponses lib path meth oid rest r1 = Inr (ch2, rest2, r')"
    by (auto split: sum.splits prod.splits)
  have "P r1"
    by (rule processResponseSchema_lift [OF "3.prems"(1) a "3.prems"(3)])
  then show ?case
    using "3.IH" [OF a refl refl "3.prems"(1) b] by simp
qed simp_all

lemma walkOperation_lift:
  assumes "keptBySchemaRewrite lib P"
    and "walkOperation lib path methodKey methodVal r = Inr (ch, v', r')"
    and "P r"
  shows "P r'"
  using assms(2,3)
  by (auto simp: walkOperation_def Let_def split: if_splits sum.splits option.splits prod.splits
      dest: walkResponses_lift [OF assms(1)])

lemma walkOperations_lift:
  "keptBySchemaRewrite lib P \<Longrightarrow>
   walkOperations lib path xs r = Inr (ch, xs', r') \<Longrightarrow> P r \<Longrightarrow> P r'"
proof (induction lib path xs r arbitrary: ch xs' r' rule: walkOperations.induct)
  case (3 lib path methodKey methodVal rest r)
  from "3.prems"(2) obtain ch1 v1 r1 ch2 rest2 where
    a: "walkOperation lib path methodKey methodVal r = Inr (ch1, v1, r1)"
    and b: "walkOperations lib path rest r1 = Inr (ch2, rest2, r')"
    by (auto split: sum.splits prod.splits)
  have "P r1"
    by (rule walkOperation_lift [OF "3.prems"(1) a "3.prems"(3)])
  then show ?case
    using "3.IH" [OF a refl refl "3.prems"(1) b] by simp
qed simp_all

lemma walkPaths_lift:
  "keptBySchemaRewrite lib P \<Longrightarrow>
   walkPaths lib xs r = Inr (ch, xs', r') \<Longrightarrow> P r \<Longrightarrow> P r'"
proof (induction lib xs r arbitrary: ch xs' r' rule: walkPaths.induct)
  case (3 lib pathKey pathVal rest r)
  let ?here = "if Kind pathVal \<noteq> MappingNode then Inr (False, pathVal, r)
               else (case walkOperations lib (Value pathKey) (Content pathVal) r of
                       Inl e \<Rightarrow> Inl e
                     | Inr (changed, content', r') \<Rightarrow>
                         Inr (changed, setContent pathVal content', r'))"
  from "3.prems"(2) obtain ch1 v1 r1 ch2 rest2 where
    a: "?here = Inr (ch1, v1, r1)"
    and b: "walkPaths lib rest r1 = Inr (ch2, rest2, r')"
    by (auto split: sum.splits prod.splits)
  have "P r1"
    using a "3.prems"(3) walkOperations_lift [OF "3.prems"(1)]
    by (auto split: if_splits sum.splits prod.splits)
  then show ?case
    using "3.IH" [OF a refl refl "3.prems"(1) b] by simp
qed simp_all


section \<open>A second walk changes nothing\<close>

lemma firstContentType_present:
  "firstContentType contentNode cts = Inr (Some (ct, v)) \<Longrightarrow>
   getMapValue contentNode ct = Inr (Some v)"
  by (induction cts) (auto split: sum.splits option.splits)

lemma firstContentType_setMapValue:
  "firstContentType contentNode cts = Inr (Some (ct, v)) \<Longrightarrow>
   firstContentType (setMapValue contentNode ct v') cts = Inr (Some (ct, v'))"
proof (induction cts)
  case Nil
  then show ?case by simp
next
  case (Cons c cts)
  show ?case
  proof (cases "c = ct")
    case True
    have "getMapValue contentNode ct = Inr (Some v)"
      by (rule firstContentType_present [OF Cons.prems])
    with True show ?thesis
      by (simp add: getMapValue_setMapValue_same)
  next
    case False
    with Cons.prems have n: "getMapValue contentNode c = Inr None"
      and rest: "firstContentType contentNode cts = Inr (Some (ct, v))"
      by (auto split: sum.splits option.splits)
    show ?thesis
      using False n Cons.IH [OF rest] by (simp add: getMapValue_setMapValue_other)
  qed
qed

lemma processSchemaNode_refOnly:
  "isRefOnlySchema s \<Longrightarrow> processSchemaNode lib path method oid status s r = Inr (False, s, r)"
  by (simp add: processSchemaNode_def)

lemma processResponseSchema_settled:
  assumes "processResponseSchema lib path method oid status c r = Inr (ch, c', r')"
  shows "processResponseSchema lib path2 method2 oid2 status2 c' r2 = Inr (False, c', r2)"
proof (cases "Kind c = MappingNode")
  case False
  with assms show ?thesis by (simp add: processResponseSchema_def)
next
  case kc: True
  show ?thesis
  proof (cases "getMapValue c ''content''")
    case (Inl e)
    with assms kc show ?thesis by (simp add: processResponseSchema_def)
  next
    case (Inr found)
    show ?thesis
    proof (cases "\<exists>cn. found = Some cn \<and> Kind cn = MappingNode")
      case False
      with assms kc Inr have "c' = c"
        by (auto simp: processResponseSchema_def split: option.splits)
      with False kc Inr show ?thesis
        by (auto simp: processResponseSchema_def split: option.splits)
    next
      case True
      then obtain cn where cn: "found = Some cn" "Kind cn = MappingNode" by auto
      show ?thesis
      proof (cases "firstContentType cn contentTypes")
        case (Inl e)
        with assms kc Inr cn show ?thesis by (simp add: processResponseSchema_def)
      next
        case sel: (Inr picked)
        show ?thesis
        proof (cases "\<exists>ct aj. picked = Some (ct, aj) \<and> Kind aj = MappingNode")
          case False
          with assms kc Inr cn sel have "c' = c"
            by (auto simp: processResponseSchema_def split: option.splits)
          with False kc Inr cn sel show ?thesis
            by (auto simp: processResponseSchema_def split: option.splits)
        next
          case True
          then obtain ct aj where aj: "picked = Some (ct, aj)" "Kind aj = MappingNode" by auto
          show ?thesis
          proof (cases "getMapValue aj ''schema''")
            case (Inl e)
            with assms kc Inr cn sel aj show ?thesis by (simp add: processResponseSchema_def)
          next
            case sch: (Inr sfound)
            show ?thesis
            proof (cases "\<exists>s. sfound = Some s \<and> Kind s = MappingNode")
              case False
              with assms kc Inr cn sel aj sch have "c' = c"
                by (auto simp: processResponseSchema_def split: option.splits)
              with False kc Inr cn sel aj sch show ?thesis
                by (auto simp: processResponseSchema_def split: option.splits)
            next
              case True
              then obtain s where s: "sfound = Some s" "Kind s = MappingNode" by auto
              from assms kc Inr cn sel aj sch s obtain s' where
                p: "processSchemaNode lib path method oid status s r = Inr (ch, s', r')"
                and c': "c' = setMapValue c ''content''
                          (setMapValue cn ct (setMapValue aj ''schema'' s'))"
                by (auto simp: processResponseSchema_def split: sum.splits)
              let ?aj = "setMapValue aj ''schema'' s'"
              let ?cn = "setMapValue cn ct ?aj"
              have ref: "isRefOnlySchema s'" "Kind s' = MappingNode"
                using processSchemaNode_result [OF p s(2)] by simp_all
              have g1: "getMapValue c' ''content'' = Inr (Some ?cn)"
                using Inr cn c' by (simp add: getMapValue_setMapValue_same)
              have g2: "firstContentType ?cn contentTypes = Inr (Some (ct, ?aj))"
                using sel aj by (simp add: firstContentType_setMapValue)
              have g3: "getMapValue ?aj ''schema'' = Inr (Some s')"
                using sch s by (simp add: getMapValue_setMapValue_same)
              have wb: "setMapValue c' ''content''
                          (setMapValue ?cn ct (setMapValue ?aj ''schema'' s')) = c'"
                by (simp add: c')
              show ?thesis
                using kc cn aj ref g1 g2 g3 wb
                by (simp add: processResponseSchema_def processSchemaNode_refOnly c')
            qed
          qed
        qed
      qed
    qed
  qed
qed

lemma walkResponses_settled:
  "walkResponses lib path meth oid xs r = Inr (ch, xs', r') \<Longrightarrow>
   walkResponses lib path2 method2 oid2 xs' r2 = Inr (False, xs', r2)"
proof (induction lib path meth oid xs r arbitrary: ch xs' r' rule: walkResponses.induct)
  case (3 lib path meth oid codeKey codeVal rest r)
  from "3.prems" obtain ch1 c1 r1 ch2 rest2 where
    a: "processResponseSchema lib path meth oid (Value codeKey) codeVal r = Inr (ch1, c1, r1)"
    and b: "walkResponses lib path meth oid rest r1 = Inr (ch2, rest2, r')"
    and xs': "xs' = codeKey # c1 # rest2"
    by (auto split: sum.splits prod.splits)
  show ?case
    using processResponseSchema_settled [OF a] "3.IH" [OF a refl refl b]
    by (simp add: xs')
qed simp_all


lemma walkOperation_settled:
  assumes "walkOperation lib path methodKey methodVal r = Inr (ch, v', r')"
  shows "walkOperation lib path2 methodKey v' r2 = Inr (False, v', r2)"
proof (cases "Value methodKey \<in> set httpMethods \<and> Kind methodVal = MappingNode")
  case False
  with assms have "v' = methodVal"
    by (auto simp: walkOperation_def Let_def split: if_splits)
  with False show ?thesis
    by (auto simp: walkOperation_def Let_def split: if_splits)
next
  case mk: True
  show ?thesis
  proof (cases "getMapValue methodVal ''operationId''")
    case (Inl e)
    with assms mk show ?thesis by (simp add: walkOperation_def)
  next
    case op: (Inr opIDNode)
    show ?thesis
    proof (cases "getMapValue methodVal ''responses''")
      case (Inl e)
      with assms mk op show ?thesis by (simp add: walkOperation_def Let_def)
    next
      case resp: (Inr found)
      show ?thesis
      proof (cases "\<exists>rn. found = Some rn \<and> Kind rn = MappingNode")
        case False
        with assms mk op resp have "v' = methodVal"
          by (auto simp: walkOperation_def Let_def split: option.splits)
        with False mk op resp show ?thesis
          by (auto simp: walkOperation_def Let_def split: option.splits)
      next
        case True
        then obtain rn where rn: "found = Some rn" "Kind rn = MappingNode" by auto
        from assms mk op resp rn obtain oid content' where
          w: "walkResponses lib path (Value methodKey) oid (Content rn) r = Inr (ch, content', r')"
          and v': "v' = setMapValue methodVal ''responses'' (setContent rn content')"
          by (auto simp: walkOperation_def Let_def split: sum.splits)
        have g0: "getMapValue v' ''operationId'' = Inr opIDNode"
          using op by (simp add: v' getMapValue_setMapValue_other)
        have g1: "getMapValue v' ''responses'' = Inr (Some (setContent rn content'))"
          using resp rn by (simp add: v' getMapValue_setMapValue_same)
        have wb: "setMapValue v' ''responses'' (setContent (setContent rn content') content') = v'"
          by (simp add: v')
        show ?thesis
          using mk rn g0 g1 wb walkResponses_settled [OF w]
          by (simp add: walkOperation_def Let_def v')
      qed
    qed
  qed
qed

lemma walkOperations_settled:
  "walkOperations lib path xs r = Inr (ch, xs', r') \<Longrightarrow>
   walkOperations lib path2 xs' r2 = Inr (False, xs', r2)"
proof (induction lib path xs r arbitrary: ch xs' r' rule: walkOperations.induct)
  case (3 lib path methodKey methodVal rest r)
  from "3.prems" obtain ch1 v1 r1 ch2 rest2 where
    a: "walkOperation lib path methodKey methodVal r = Inr (ch1, v1, r1)"
    and b: "walkOperations lib path rest r1 = Inr (ch2, rest2, r')"
    and xs': "xs' = methodKey # v1 # rest2"
    by (auto split: sum.splits prod.splits)
  show ?case
    using walkOperation_settled [OF a] "3.IH" [OF a refl refl b]
    by (simp add: xs')
qed simp_all

lemma walkPaths_settled:
  "walkPaths lib xs r = Inr (ch, xs', r') \<Longrightarrow> walkPaths lib xs' r2 = Inr (False, xs', r2)"
proof (induction lib xs r arbitrary: ch xs' r' rule: walkPaths.induct)
  case (3 lib pathKey pathVal rest r)
  let ?here = "if Kind pathVal \<noteq> MappingNode then Inr (False, pathVal, r)
               else (case walkOperations lib (Value pathKey) (Content pathVal) r of
                       Inl e \<Rightarrow> Inl e
                     | Inr (changed, content', r') \<Rightarrow>
                         Inr (changed, setContent pathVal content', r'))"
  from "3.prems" obtain ch1 v1 r1 ch2 rest2 where
    a: "?here = Inr (ch1, v1, r1)"
    and b: "walkPaths lib rest r1 = Inr (ch2, rest2, r')"
    and xs': "xs' = pathKey # v1 # rest2"
    by (auto split: sum.splits prod.splits)
  have here2: "(if Kind v1 \<noteq> MappingNode then Inr (False, v1, r2)
                else (case walkOperations lib (Value pathKey) (Content v1) r2 of
                        Inl e \<Rightarrow> Inl e
                      | Inr (changed, content', r') \<Rightarrow>
                          Inr (changed, setContent v1 content', r'))) = Inr (False, v1, r2)"
    using a walkOperations_settled [where lib = lib and ?path2.0 = "Value pathKey" and ?r2.0 = r2]
    by (auto split: if_splits sum.splits prod.splits)
  show ?case
    using here2 "3.IH" [OF a refl refl b]
    by (simp add: xs')
qed simp_all


section \<open>The schemas node only grows, by whole entries\<close>

lemma extends_refl [simp]: "extends s s"
  by (simp add: extends_def)

lemma extends_trans: "extends s s' \<Longrightarrow> extends s' s'' \<Longrightarrow> extends s s''"
  by (auto simp: extends_def)

lemma extends_appendMapEntry: "extends s s' \<Longrightarrow> extends s (appendMapEntry s' name v)"
  by (auto simp: extends_def)

lemma componentizeSchema_extends:
  assumes "componentizeSchema lib r n hint = Inr (name, ch, after, r')"
    and "extends s0 (schemasNode r)"
  shows "extends s0 (schemasNode r')"
  using assms
  by (auto simp: componentizeSchema_def Let_def extends_appendMapEntry
      split: option.splits if_splits sum.splits)

lemma handleAlternativesPattern_extends:
  assumes "handleAlternativesPattern lib path method oid status s b r = Inr (ch, s', r')"
    and "extends s0 (schemasNode r)"
  shows "extends s0 (schemasNode r')"
  using assms
  by (auto simp: handleAlternativesPattern_def Let_def extends_appendMapEntry
      split: sum.splits if_splits dest: componentizeSchema_extends)

lemma processSchemaNode_extends:
  "keptBySchemaRewrite lib (\<lambda>r. extends s0 (schemasNode r))"
  unfolding keptBySchemaRewrite_def
  by (auto simp: processSchemaNode_def componentizeInline_def
      split: if_splits sum.splits option.splits
      dest: componentizeSchema_extends handleAlternativesPattern_extends)

lemma walkPaths_extends:
  "walkPaths lib xs r = Inr (ch, xs', r') \<Longrightarrow> extends (schemasNode r) (schemasNode r')"
  using walkPaths_lift [OF processSchemaNode_extends, of lib xs r ch xs' r' "schemasNode r"]
  by simp

section \<open>Seeding the registry\<close>

lemma seedRegistry_schemasNode:
  "seedRegistry lib xs r = Inr r' \<Longrightarrow> schemasNode r' = schemasNode r"
  by (induction lib xs r rule: seedRegistry.induct) (auto simp: Let_def split: if_splits)

lemma seedRegistry_even:
  "seedRegistry lib xs r = Inr r' \<Longrightarrow> even (length xs)"
  by (induction lib xs r rule: seedRegistry.induct) (auto simp: Let_def split: if_splits)

lemma seedRegistry_total:
  "even (length xs) \<Longrightarrow> \<exists>r'. seedRegistry lib xs r = Inr r'"
  by (induction lib xs r rule: seedRegistry.induct) (auto simp: Let_def)

lemma newSchemaRegistry_schemasNode:
  "newSchemaRegistry lib s = Inr r \<Longrightarrow> schemasNode r = s"
  by (auto simp: newSchemaRegistry_def Let_def split: if_splits dest: seedRegistry_schemasNode)

lemma newSchemaRegistry_extends:
  assumes "newSchemaRegistry lib s = Inr r" and "extends s s'"
  shows "\<exists>r'. newSchemaRegistry lib s' = Inr r'"
proof (cases "Kind s = MappingNode")
  case True
  with assms(1) have "even (length (Content s))"
    by (auto simp: newSchemaRegistry_def Let_def dest: seedRegistry_even)
  with assms(2) have "even (length (Content s'))"
    by (auto simp: extends_def)
  then show ?thesis
    using seedRegistry_total by (simp add: newSchemaRegistry_def Let_def)
next
  case False
  with assms(2) show ?thesis
    by (simp add: newSchemaRegistry_def Let_def extends_def)
qed

section \<open>ensureMapValue\<close>

lemma ensureMapValue_result:
  "ensureMapValue m key = Inr (m1, v) \<Longrightarrow>
   Kind m1 = MappingNode \<and> getMapValue m1 key = Inr (Some v)"
  by (auto simp: ensureMapValue_def Let_def getMapValue_def lookupPairs_append
      split: if_splits sum.splits option.splits)

lemma ensureMapValue_found:
  "getMapValue m key = Inr (Some v) \<Longrightarrow> ensureMapValue m key = Inr (m, v)"
  by (frule getMapValue_Some_Kind) (simp add: ensureMapValue_def)


section \<open>Idempotence\<close>

text \<open>
  C1. When \<open>RefactorInlineResponseSchemas\<close> succeeds on a document, a second run on the
  resulting document succeeds, returns \<open>changed == false\<close> and leaves the document as it is.
\<close>

theorem refactor_idempotent:
  assumes run: "RefactorInlineResponseSchemas lib root = Inr (changed, root')"
  shows "RefactorInlineResponseSchemas lib root' = Inr (False, root')"
proof -
  from run have doc: "Kind root = DocumentNode" "Content root \<noteq> []"
    by (auto simp: RefactorInlineResponseSchemas_def split: if_splits)
  define t where "t = Content root ! 0"
  from run doc have kt: "Kind t = MappingNode"
    by (auto simp: RefactorInlineResponseSchemas_def Let_def t_def split: if_splits)
  from run doc kt obtain top1 comp comp1 s0 reg pathsNode content' reg' where
    e1: "ensureMapValue t ''components'' = Inr (top1, comp)"
    and e2: "ensureMapValue comp ''schemas'' = Inr (comp1, s0)"
    and nr: "newSchemaRegistry lib s0 = Inr reg"
    and gp: "getMapValue (setMapValue top1 ''components'' comp1) ''paths'' = Inr (Some pathsNode)"
    and kp: "Kind pathsNode = MappingNode"
    and wp: "walkPaths lib (Content pathsNode) reg = Inr (changed, content', reg')"
    and root': "root' = setContent root
        (setMapValue
           (setMapValue (setMapValue top1 ''components'' comp1) ''components''
              (setMapValue comp1 ''schemas'' (schemasNode reg')))
           ''paths'' (setContent pathsNode content')
         # tl (Content root))"
    by (auto simp: RefactorInlineResponseSchemas_def Let_def t_def
        split: if_splits sum.splits option.splits prod.splits)
  let ?comp2 = "setMapValue comp1 ''schemas'' (schemasNode reg')"
  let ?top3 = "setMapValue top1 ''components'' ?comp2"
  let ?paths' = "setContent pathsNode content'"
  let ?top4 = "setMapValue ?top3 ''paths'' ?paths'"
  have root'_eq: "root' = setContent root (?top4 # tl (Content root))"
    by (simp add: root')
  have t1: "Kind top1 = MappingNode" "getMapValue top1 ''components'' = Inr (Some comp)"
    using ensureMapValue_result [OF e1] by simp_all
  have c1: "Kind comp1 = MappingNode" "getMapValue comp1 ''schemas'' = Inr (Some s0)"
    using ensureMapValue_result [OF e2] by simp_all
  have gp1: "getMapValue top1 ''paths'' = Inr (Some pathsNode)"
    using gp by (simp add: getMapValue_setMapValue_other)
  \<comment> \<open>the second run\<close>
  have d2: "Kind root' = DocumentNode" "Content root' \<noteq> []" "Content root' ! 0 = ?top4"
    using doc by (simp_all add: root'_eq)
  have k4: "Kind ?top4 = MappingNode"
    using t1 by simp
  have g4: "getMapValue ?top4 ''components'' = Inr (Some ?comp2)"
    using t1 by (simp add: getMapValue_setMapValue_other getMapValue_setMapValue_same)
  have e1': "ensureMapValue ?top4 ''components'' = Inr (?top4, ?comp2)"
    by (rule ensureMapValue_found [OF g4])
  have g5: "getMapValue ?comp2 ''schemas'' = Inr (Some (schemasNode reg'))"
    using c1 by (simp add: getMapValue_setMapValue_same)
  have e2': "ensureMapValue ?comp2 ''schemas'' = Inr (?comp2, schemasNode reg')"
    by (rule ensureMapValue_found [OF g5])
  have "extends s0 (schemasNode reg')"
    using walkPaths_extends [OF wp] newSchemaRegistry_schemasNode [OF nr] by simp
  then obtain reg2 where nr2: "newSchemaRegistry lib (schemasNode reg') = Inr reg2"
    using newSchemaRegistry_extends [OF nr] by blast
  have s2: "schemasNode reg2 = schemasNode reg'"
    by (rule newSchemaRegistry_schemasNode [OF nr2])
  have same_top: "setMapValue ?top4 ''components'' ?comp2 = ?top4"
    by (rule setMapValue_same [OF g4])
  have gp4: "getMapValue ?top4 ''paths'' = Inr (Some ?paths')"
    using gp1 by (simp add: getMapValue_setMapValue_other getMapValue_setMapValue_same)
  have kp': "Kind ?paths' = MappingNode"
    using kp by simp
  have wp2: "walkPaths lib (Content ?paths') reg2 = Inr (False, content', reg2)"
    using walkPaths_settled [OF wp] by simp
  have fin: "setMapValue
               (setMapValue ?top4 ''components'' (setMapValue ?comp2 ''schemas'' (schemasNode reg2)))
               ''paths'' (setContent ?paths' content') = ?top4"
    using same_top by (simp add: s2)
  have tl': "tl (Content root') = tl (Content root)"
    by (simp add: root'_eq)
  have final: "setContent root' (?top4 # tl (Content root')) = root'"
    by (simp add: root'_eq)
  show ?thesis
    unfolding RefactorInlineResponseSchemas_def
    using d2 k4 e1' e2' nr2 same_top gp4 kp' wp2 fin final
    by (simp add: Let_def)
qed


theorem refactor_idempotent_witness:
  "\<not> isl (RefactorInlineResponseSchemas exampleLib docInline)
   \<and> fst (projr (RefactorInlineResponseSchemas exampleLib docInline)) = True
   \<and> RefactorInlineResponseSchemas exampleLib
         (snd (projr (RefactorInlineResponseSchemas exampleLib docInline)))
       = Inr (False, snd (projr (RefactorInlineResponseSchemas exampleLib docInline)))"
proof -
  let ?X = "RefactorInlineResponseSchemas exampleLib docInline"
  have a: "\<not> isl ?X" and b: "fst (projr ?X) = True"
    using refactor_docInline_changed by simp_all
  from a have run: "?X = Inr (fst (projr ?X), snd (projr ?X))"
    by (cases ?X) auto
  show ?thesis
    using a b refactor_idempotent [OF run] by simp
qed

section \<open>Facts about names and entries\<close>

lemma pairsOf_append:
  "even (length xs) \<Longrightarrow> pairsOf (xs @ [k, v]) = pairsOf xs @ [(Value k, v)]"
  by (induction xs rule: pairsOf.induct) auto

lemma lookupPairs_None_iff:
  "even (length xs) \<Longrightarrow> lookupPairs xs key = Inr None \<longleftrightarrow> key \<notin> fst ` set (pairsOf xs)"
  by (induction xs key rule: lookupPairs.induct) auto

lemma lookupPairs_Some_mem:
  "lookupPairs xs key = Inr (Some v) \<Longrightarrow> (key, v) \<in> set (pairsOf xs)"
  by (induction xs key rule: lookupPairs.induct) (auto split: if_splits)

lemma lookupPairs_even_total:
  "even (length xs) \<Longrightarrow> \<exists>found. lookupPairs xs key = Inr found"
  by (induction xs key rule: lookupPairs.induct) auto

lemma uniqueLoop_fresh: "uniqueLoop names base name i |\<notin>| names"
  by (induction names base name i rule: uniqueLoop.induct) (subst uniqueLoop.simps, simp)

lemma decimal_not_Nil: "decimal n \<noteq> []"
  by (subst decimal.simps) simp

lemma uniqueLoop_suffix:
  "name |\<in>| names \<Longrightarrow>
   \<exists>k\<ge>i. uniqueLoop names base name i = base @ decimal k
          \<and> base @ decimal k |\<notin>| names
          \<and> (\<forall>j. i \<le> j \<and> j < k \<longrightarrow> base @ decimal j |\<in>| names)"
proof (induction names base name i rule: uniqueLoop.induct)
  case (1 names base name i)
  show ?case
  proof (cases "base @ decimal i |\<in>| names")
    case False
    then have "uniqueLoop names base name i = base @ decimal i"
      using "1.prems" by (subst uniqueLoop.simps) (simp add: uniqueLoop_free)
    with False show ?thesis by auto
  next
    case True
    from "1.IH" [OF _ True] "1.prems" obtain k where
      k: "Suc i \<le> k" "uniqueLoop names base (base @ decimal i) (Suc i) = base @ decimal k"
        "base @ decimal k |\<notin>| names"
        "\<forall>j. Suc i \<le> j \<and> j < k \<longrightarrow> base @ decimal j |\<in>| names"
      by auto
    have "uniqueLoop names base name i = base @ decimal k"
      using "1.prems" k(2) by (subst uniqueLoop.simps) simp
    moreover have "\<forall>j. i \<le> j \<and> j < k \<longrightarrow> base @ decimal j |\<in>| names"
      using k(4) True by (metis Suc_leI le_neq_implies_less)
    ultimately show ?thesis
      using k(1,3) by (intro exI [of _ k]) auto
  qed
qed


lemma registerSchema_pairs:
  assumes "registryTracks r"
  shows "pairsOf (Content (schemasNode (registerSchema lib r name n)))
           = pairsOf (Content (schemasNode r)) @ [(name, n)]"
  using assms by (simp add: registryTracks_def pairsOf_append)

lemma registerSchema_tracks:
  assumes "registryTracks r"
  shows "registryTracks (registerSchema lib r name n)"
proof -
  have "fset (existingNames (registerSchema lib r name n))
          = fst ` set (pairsOf (Content (schemasNode (registerSchema lib r name n))))"
    unfolding registerSchema_pairs [OF assms]
    using assms by (simp add: registryTracks_def)
  moreover have "Kind (schemasNode (registerSchema lib r name n)) = MappingNode"
    "even (length (Content (schemasNode (registerSchema lib r name n))))"
    using assms by (simp_all add: registryTracks_def)
  ultimately show ?thesis
    unfolding registryTracks_def by blast
qed

lemma registerSchema_fresh:
  assumes inv: "registryInvariant lib r" and new: "name |\<notin>| existingNames r"
  shows "registryInvariant lib (registerSchema lib r name n)"
proof -
  let ?xs = "Content (schemasNode r)"
  from inv have tr: "registryTracks r" and one: "oneSchemaPerName lib (schemasNode r)"
    by (simp_all add: registryInvariant_def)
  have absent: "\<And>v. (name, v) \<notin> set (pairsOf ?xs)"
  proof
    fix v assume "(name, v) \<in> set (pairsOf ?xs)"
    then have "name \<in> fst ` set (pairsOf ?xs)" by force
    with tr new show False by (simp add: registryTracks_def)
  qed
  have "oneSchemaPerName lib (schemasNode (registerSchema lib r name n))"
    unfolding oneSchemaPerName_def registerSchema_pairs [OF tr]
  proof (intro allI impI)
    fix nm v1 v2
    assume a: "(nm, v1) \<in> set (pairsOf ?xs @ [(name, n)])"
      and b: "(nm, v2) \<in> set (pairsOf ?xs @ [(name, n)])"
    show "schemaFingerprint lib v1 = schemaFingerprint lib v2"
    proof (cases "nm = name")
      case True
      with a b absent show ?thesis by auto
    next
      case False
      with a b have "(nm, v1) \<in> set (pairsOf ?xs)" "(nm, v2) \<in> set (pairsOf ?xs)" by auto
      with one show ?thesis unfolding oneSchemaPerName_def by blast
    qed
  qed
  with registerSchema_tracks [OF tr] show ?thesis
    by (simp add: registryInvariant_def)
qed

lemma registerSchema_same:
  assumes inv: "registryInvariant lib r"
    and ex: "getMapValue (schemasNode r) name = Inr (Some existing)"
    and fp: "schemaFingerprint lib existing = schemaFingerprint lib n"
  shows "registryInvariant lib (registerSchema lib r name n)"
proof -
  let ?xs = "Content (schemasNode r)"
  from inv have tr: "registryTracks r" and one: "oneSchemaPerName lib (schemasNode r)"
    by (simp_all add: registryInvariant_def)
  have mem: "(name, existing) \<in> set (pairsOf ?xs)"
    using ex by (auto simp: getMapValue_def split: if_splits dest: lookupPairs_Some_mem)
  have old: "\<And>v. (name, v) \<in> set (pairsOf ?xs) \<Longrightarrow>
               schemaFingerprint lib v = schemaFingerprint lib n"
    using one mem fp unfolding oneSchemaPerName_def by metis
  have "oneSchemaPerName lib (schemasNode (registerSchema lib r name n))"
    unfolding oneSchemaPerName_def registerSchema_pairs [OF tr]
  proof (intro allI impI)
    fix nm v1 v2
    assume a: "(nm, v1) \<in> set (pairsOf ?xs @ [(name, n)])"
      and b: "(nm, v2) \<in> set (pairsOf ?xs @ [(name, n)])"
    show "schemaFingerprint lib v1 = schemaFingerprint lib v2"
    proof (cases "nm = name")
      case True
      with a have "schemaFingerprint lib v1 = schemaFingerprint lib n"
        using old by auto
      moreover from True b have "schemaFingerprint lib v2 = schemaFingerprint lib n"
        using old by auto
      ultimately show ?thesis by simp
    next
      case False
      with a b have "(nm, v1) \<in> set (pairsOf ?xs)" "(nm, v2) \<in> set (pairsOf ?xs)" by auto
      with one show ?thesis unfolding oneSchemaPerName_def by blast
    qed
  qed
  with registerSchema_tracks [OF tr] show ?thesis
    by (simp add: registryInvariant_def)
qed

lemma getMapValue_None_fresh:
  assumes "registryInvariant lib r" and "getMapValue (schemasNode r) name = Inr None"
  shows "name |\<notin>| existingNames r"
  using assms
  by (auto simp: registryInvariant_def registryTracks_def getMapValue_def lookupPairs_None_iff)

lemma componentizeSchema_registry:
  "componentizeSchema lib r (Some n) hint = Inr (name, ch, after, r') \<Longrightarrow>
   r' = r \<or> r' = registerSchema lib r name n"
  by (auto simp: componentizeSchema_def registerSchema_def Let_def
      split: if_splits option.splits sum.splits)

lemma componentizeSchema_invariant:
  assumes run: "componentizeSchema lib r (Some n) hint = Inr (name, ch, after, r')"
    and inv: "registryInvariant lib r"
  shows "registryInvariant lib r'"
proof (cases "r' = r")
  case True
  with inv show ?thesis by simp
next
  case False
  with run have r': "r' = registerSchema lib r name n"
    using componentizeSchema_registry by blast
  from run False obtain candidate where
    u: "ensureUniqueName lib r candidate (schemaFingerprint lib n) = Inr name"
    by (auto simp: componentizeSchema_def Let_def split: if_splits option.splits sum.splits)
  show ?thesis
  proof (cases "name |\<in>| existingNames r")
    case False
    then show ?thesis
      using registerSchema_fresh [OF inv] r' by simp
  next
    case True
    with u obtain existing where
      "getMapValue (schemasNode r) name = Inr (Some existing)"
      "schemaFingerprint lib existing = schemaFingerprint lib n"
      using uniqueLoop_fresh [of "existingNames r" candidate candidate 2]
      by (auto simp: ensureUniqueName_def split: sum.splits option.splits if_splits)
    then show ?thesis
      using registerSchema_same [OF inv] r' by simp
  qed
qed

lemma handleAlternativesPattern_invariant:
  assumes run: "handleAlternativesPattern lib path method oid status s b r = Inr (ch, s', r')"
    and inv: "registryInvariant lib r"
  shows "registryInvariant lib r'"
proof (cases "deriveSchemaName lib oid")
  case (Inl e)
  with run show ?thesis by (simp add: handleAlternativesPattern_def)
next
  case (Inr baseName)
  show ?thesis
  proof (cases "baseName = []")
    case True
    with run Inr inv show ?thesis
      by (auto simp: handleAlternativesPattern_def split: sum.splits
          dest: componentizeSchema_invariant)
  next
    case False
    define r1 where "r1 = (case getMapValue (schemasNode r) baseName of
        Inr None \<Rightarrow> registerSchema lib r baseName (cloneNode b) | _ \<Rightarrow> r)"
    have i1: "registryInvariant lib r1"
      using inv getMapValue_None_fresh [OF inv, of baseName]
      by (auto simp: r1_def registerSchema_fresh split: sum.splits option.splits)
    define r2 where "r2 = (case getMapValue (schemasNode r1) (baseName @ ''WithAlternatives'') of
        Inr None \<Rightarrow> registerSchema lib r1 (baseName @ ''WithAlternatives'')
                      (buildCompositeSchema baseName)
      | _ \<Rightarrow> r1)"
    have i2: "registryInvariant lib r2"
      using i1 getMapValue_None_fresh [OF i1, of "baseName @ ''WithAlternatives''"]
      by (auto simp: r2_def registerSchema_fresh split: sum.splits option.splits)
    have "r' = r2"
      using run Inr False
      by (auto simp: handleAlternativesPattern_def Let_def r1_def r2_def
          split: sum.splits option.splits if_splits)
    with i2 show ?thesis by simp
  qed
qed

lemma processSchemaNode_invariant:
  "keptBySchemaRewrite lib (registryInvariant lib)"
  unfolding keptBySchemaRewrite_def
  by (auto simp: processSchemaNode_def componentizeInline_def
      split: if_splits sum.splits option.splits
      dest: componentizeSchema_invariant handleAlternativesPattern_invariant)


section \<open>The invariant at the start and at the end of a run\<close>

lemma seedRegistry_names:
  "seedRegistry lib xs r = Inr r' \<Longrightarrow>
   fset (existingNames r') = fset (existingNames r) \<union> fst ` set (pairsOf xs)"
  by (induction lib xs r rule: seedRegistry.induct) (auto simp: Let_def split: if_splits)

lemma newSchemaRegistry_tracks:
  assumes "newSchemaRegistry lib s = Inr r" and "Kind s = MappingNode"
  shows "registryTracks r"
proof -
  let ?r0 = "\<lparr>byFingerprint = Map.empty, existingNames = {||}, schemasNode = s\<rparr>"
  from assms have seed: "seedRegistry lib (Content s) ?r0 = Inr r"
    by (simp add: newSchemaRegistry_def)
  have "schemasNode r = s"
    using seedRegistry_schemasNode [OF seed] by simp
  moreover have "even (length (Content s))"
    by (rule seedRegistry_even [OF seed])
  moreover have "fset (existingNames r) = fst ` set (pairsOf (Content s))"
    using seedRegistry_names [OF seed] by simp
  ultimately show ?thesis
    using assms(2) by (simp add: registryTracks_def)
qed

lemma ensureMapValue_cases:
  "ensureMapValue m key = Inr (m1, v) \<Longrightarrow>
   getMapValue m key = Inr (Some v) \<or> v = Node MappingNode [] [] []"
  by (auto simp: ensureMapValue_def Let_def getMapValue_def
      split: if_splits sum.splits option.splits)

lemma oneSchemaPerName_empty: "oneSchemaPerName lib (Node MappingNode [] [] [])"
  by (simp add: oneSchemaPerName_def)

lemma refactor_keeps_oneSchemaPerName:
  assumes run: "RefactorInlineResponseSchemas lib root = Inr (changed, root')"
    and init: "\<forall>s. docAt root [''components'', ''schemas''] = Some s \<longrightarrow>
                 Kind s = MappingNode \<and> oneSchemaPerName lib s"
  shows "\<exists>s'. docAt root' [''components'', ''schemas''] = Some s'
             \<and> Kind s' = MappingNode \<and> oneSchemaPerName lib s'"
proof -
  from run have doc: "Kind root = DocumentNode" "Content root \<noteq> []"
    by (auto simp: RefactorInlineResponseSchemas_def split: if_splits)
  define t where "t = Content root ! 0"
  from doc have cr: "Content root = t # tl (Content root)"
    by (cases "Content root") (simp_all add: t_def)
  from run doc have kt: "Kind t = MappingNode"
    by (auto simp: RefactorInlineResponseSchemas_def Let_def t_def split: if_splits)
  from run doc kt obtain top1 comp comp1 s0 reg pathsNode content' reg' where
    e1: "ensureMapValue t ''components'' = Inr (top1, comp)"
    and e2: "ensureMapValue comp ''schemas'' = Inr (comp1, s0)"
    and nr: "newSchemaRegistry lib s0 = Inr reg"
    and wp: "walkPaths lib (Content pathsNode) reg = Inr (changed, content', reg')"
    and root': "root' = setContent root
        (setMapValue
           (setMapValue (setMapValue top1 ''components'' comp1) ''components''
              (setMapValue comp1 ''schemas'' (schemasNode reg')))
           ''paths'' (setContent pathsNode content')
         # tl (Content root))"
    by (auto simp: RefactorInlineResponseSchemas_def Let_def t_def
        split: if_splits sum.splits option.splits prod.splits)
  have t1: "Kind top1 = MappingNode" "getMapValue top1 ''components'' = Inr (Some comp)"
    using ensureMapValue_result [OF e1] by simp_all
  have c1: "Kind comp1 = MappingNode" "getMapValue comp1 ''schemas'' = Inr (Some s0)"
    using ensureMapValue_result [OF e2] by simp_all
  \<comment> \<open>the schemas node the run starts from\<close>
  have start: "Kind s0 = MappingNode \<and> oneSchemaPerName lib s0"
  proof (cases "s0 = Node MappingNode [] [] []")
    case True
    then show ?thesis by (simp add: oneSchemaPerName_empty)
  next
    case False
    with ensureMapValue_cases [OF e2] have g2: "getMapValue comp ''schemas'' = Inr (Some s0)"
      by simp
    then have "comp \<noteq> Node MappingNode [] [] []"
      by (auto simp: getMapValue_def)
    with ensureMapValue_cases [OF e1] have g1: "getMapValue t ''components'' = Inr (Some comp)"
      by simp
    have "docAt root [''components'', ''schemas''] = Some s0"
      using g1 g2 by (subst docAt_def, subst cr) simp
    with init show ?thesis by simp
  qed
  have "registryInvariant lib reg"
    using newSchemaRegistry_tracks [OF nr] start newSchemaRegistry_schemasNode [OF nr]
    by (simp add: registryInvariant_def)
  then have fin: "registryInvariant lib reg'"
    by (rule walkPaths_lift [OF processSchemaNode_invariant wp])
  let ?comp2 = "setMapValue comp1 ''schemas'' (schemasNode reg')"
  let ?top3 = "setMapValue top1 ''components'' ?comp2"
  let ?top4 = "setMapValue ?top3 ''paths'' (setContent pathsNode content')"
  have g4: "getMapValue ?top4 ''components'' = Inr (Some ?comp2)"
    using t1 by (simp add: getMapValue_setMapValue_other getMapValue_setMapValue_same)
  have g5: "getMapValue ?comp2 ''schemas'' = Inr (Some (schemasNode reg'))"
    using c1 by (simp add: getMapValue_setMapValue_same)
  have "docAt root' [''components'', ''schemas''] = Some (schemasNode reg')"
    using g4 g5 by (simp add: docAt_def root')
  with fin show ?thesis
    by (simp add: registryInvariant_def registryTracks_def)
qed


section \<open>Colliding name hints in componentizeSchema\<close>

lemma tracks_lookup_None:
  "registryTracks r \<Longrightarrow> name |\<notin>| existingNames r \<Longrightarrow>
   getMapValue (schemasNode r) name = Inr None"
  by (auto simp: registryTracks_def getMapValue_def lookupPairs_None_iff)

lemma componentizeSchema_new:
  assumes "Kind n = MappingNode" "\<not> isRefOnlySchema n"
    and "byFingerprint r (schemaFingerprint lib n) = None"
    and "hint \<noteq> []"
    and "ensureUniqueName lib r hint (schemaFingerprint lib n) = Inr name"
  shows "componentizeSchema lib r (Some n) hint
           = Inr (name, True, Some (makeRefOnlySchema n name), registerSchema lib r name n)"
  using assms by (simp add: componentizeSchema_def registerSchema_def)

lemma colliding_hints:
  assumes tr: "registryTracks r"
    and inline1: "Kind n1 = MappingNode" "\<not> isRefOnlySchema n1"
    and inline2: "Kind n2 = MappingNode" "\<not> isRefOnlySchema n2"
    and new1: "byFingerprint r (schemaFingerprint lib n1) = None"
    and new2: "byFingerprint r (schemaFingerprint lib n2) = None"
    and distinct: "schemaFingerprint lib n1 \<noteq> schemaFingerprint lib n2"
    and hint: "hint \<noteq> []" "hint |\<notin>| existingNames r"
  shows "\<exists>r1 r2 k.
           componentizeSchema lib r (Some n1) hint
             = Inr (hint, True, Some (makeRefOnlySchema n1 hint), r1)
         \<and> componentizeSchema lib r1 (Some n2) hint
             = Inr (hint @ decimal k, True, Some (makeRefOnlySchema n2 (hint @ decimal k)), r2)
         \<and> 2 \<le> k
         \<and> hint @ decimal k |\<notin>| existingNames r
         \<and> (\<forall>j. 2 \<le> j \<and> j < k \<longrightarrow> hint @ decimal j |\<in>| existingNames r)
         \<and> getMapValue (schemasNode r2) hint = Inr (Some n1)
         \<and> getMapValue (schemasNode r2) (hint @ decimal k) = Inr (Some n2)"
proof -
  let ?fp1 = "schemaFingerprint lib n1" and ?fp2 = "schemaFingerprint lib n2"
  define r1 where "r1 = registerSchema lib r hint n1"
  have k0: "Kind (schemasNode r) = MappingNode"
    using tr by (simp add: registryTracks_def)
  have l0: "getMapValue (schemasNode r) hint = Inr None"
    by (rule tracks_lookup_None [OF tr hint(2)])
  have u1: "ensureUniqueName lib r hint ?fp1 = Inr hint"
    using l0 hint(2) by (simp add: ensureUniqueName_def uniqueLoop_free)
  have first: "componentizeSchema lib r (Some n1) hint
                 = Inr (hint, True, Some (makeRefOnlySchema n1 hint), r1)"
    unfolding r1_def by (rule componentizeSchema_new [OF inline1 new1 hint(1) u1])
  have tr1: "registryTracks r1"
    unfolding r1_def by (rule registerSchema_tracks [OF tr])
  have k1: "Kind (schemasNode r1) = MappingNode"
    using tr1 by (simp add: registryTracks_def)
  have l1: "getMapValue (schemasNode r1) hint = Inr (Some n1)"
    using getMapValue_appendMapEntry [OF k0 l0, of hint n1] by (simp add: r1_def)
  have in1: "hint |\<in>| existingNames r1"
    by (simp add: r1_def)
  from uniqueLoop_suffix [OF in1, of 2 hint] obtain k where
    k: "2 \<le> k" "uniqueLoop (existingNames r1) hint hint 2 = hint @ decimal k"
      "hint @ decimal k |\<notin>| existingNames r1"
      "\<forall>j. 2 \<le> j \<and> j < k \<longrightarrow> hint @ decimal j |\<in>| existingNames r1"
    by auto
  define r2 where "r2 = registerSchema lib r1 (hint @ decimal k) n2"
  have u2: "ensureUniqueName lib r1 hint ?fp2 = Inr (hint @ decimal k)"
    using l1 distinct k(2) by (simp add: ensureUniqueName_def)
  have new2': "byFingerprint r1 ?fp2 = None"
    using new2 distinct by (simp add: r1_def)
  have second: "componentizeSchema lib r1 (Some n2) hint
                  = Inr (hint @ decimal k, True,
                         Some (makeRefOnlySchema n2 (hint @ decimal k)), r2)"
    unfolding r2_def by (rule componentizeSchema_new [OF inline2 new2' hint(1) u2])
  have free: "hint @ decimal k |\<notin>| existingNames r"
    using k(3) by (simp add: r1_def)
  have taken: "\<forall>j. 2 \<le> j \<and> j < k \<longrightarrow> hint @ decimal j |\<in>| existingNames r"
    using k(4) decimal_not_Nil by (auto simp: r1_def)
  have l2: "getMapValue (schemasNode r1) (hint @ decimal k) = Inr None"
    by (rule tracks_lookup_None [OF tr1 k(3)])
  have g1: "getMapValue (schemasNode r2) hint = Inr (Some n1)"
    using getMapValue_appendMapEntry [OF k1 l1, of "hint @ decimal k" n2] by (simp add: r2_def)
  have g2: "getMapValue (schemasNode r2) (hint @ decimal k) = Inr (Some n2)"
    using getMapValue_appendMapEntry [OF k1 l2, of "hint @ decimal k" n2] by (simp add: r2_def)
  show ?thesis
    using first second k(1) free taken g1 g2 by blast
qed


lemma decimal_2: "decimal 2 = ''2''"
  by code_simp

section \<open>Name collisions\<close>

text \<open>
  C4 as stated fails in its second half: \<open>handleAlternativesPattern\<close> gives no suffixed
  name. When the base name is taken it keeps the entry that is there. In
  \<open>docNameCollision\<close> the operations \<open>get_airport\<close> and \<open>list_airport\<close> both give the base name
  \<open>Airport\<close> and have different base schemas; after the transform \<open>components.schemas\<close> holds
  \<open>Airport\<close> and \<open>AirportWithAlternatives\<close> only, and the second base schema is stored
  nowhere.
\<close>

theorem second_base_schema_gets_no_name:
  "docAt docNameCollision (schemaPlace ''/airports/{id}'' ''get'' ''200'')
     = Some (alternativesSchema airportBase)
   \<and> docAt docNameCollision (schemaPlace ''/airports'' ''get'' ''200'')
       = Some (alternativesSchema operatorBase)
   \<and> schemaFingerprint exampleLib airportBase \<noteq> schemaFingerprint exampleLib operatorBase
   \<and> \<not> isl (RefactorInlineResponseSchemas exampleLib docNameCollision)
   \<and> docAt (snd (projr (RefactorInlineResponseSchemas exampleLib docNameCollision)))
         [''components'', ''schemas'']
       = Some (Node MappingNode [] []
                 [scalarNode ''Airport'', airportBase,
                  scalarNode ''AirportWithAlternatives'', airportWithAlternatives])
   \<and> docAt (snd (projr (RefactorInlineResponseSchemas exampleLib docNameCollision)))
         (schemaPlace ''/airports'' ''get'' ''200'')
       = Some (refSchema ''AirportWithAlternatives'')"
  by code_simp

text \<open>
  The invariant below is stated for a \<open>components.schemas\<close> that is a mapping.
  \<open>ensureMapValue\<close> returns an existing \<open>schemas\<close> value of any kind; when it is not a
  mapping, \<open>getMapValueExists\<close> finds nothing in it and \<open>handleAlternativesPattern\<close> appends
  to it each time.
\<close>

lemma null_schemas_node_takes_a_name_twice:
  "\<not> isl (RefactorInlineResponseSchemas exampleLib docNullSchemas)
   \<and> docAt (snd (projr (RefactorInlineResponseSchemas exampleLib docNullSchemas)))
         [''components'', ''schemas'']
       = Some (Node ScalarNode ''!!null'' []
                 [scalarNode ''Airport'', airportBase,
                  scalarNode ''AirportWithAlternatives'', airportWithAlternatives,
                  scalarNode ''Airport'', operatorBase,
                  scalarNode ''AirportWithAlternatives'', airportWithAlternatives])"
  by code_simp

text \<open>
  C4, amended. (1) If \<open>components.schemas\<close> is absent, or is a mapping in which no name holds
  two schemas with different fingerprints, then after a successful run
  \<open>components.schemas\<close> is a mapping in which no name holds two schemas with different
  fingerprints. (2) In \<open>componentizeSchema\<close>, for a registry whose \<open>existingNames\<close> are the
  names of its schemas mapping: when two new inline schemas with different fingerprints
  come with the same hint and the hint is free, the first is stored under the hint and
  the second under the hint followed by the least \<open>k \<ge> 2\<close>, in decimal and with no
  separator, for which that name is free.
\<close>

theorem name_collision_safety:
  "(RefactorInlineResponseSchemas lib root = Inr (changed, root')
      \<and> (\<forall>s. docAt root [''components'', ''schemas''] = Some s \<longrightarrow>
             Kind s = MappingNode \<and> oneSchemaPerName lib s)
    \<longrightarrow> (\<exists>s'. docAt root' [''components'', ''schemas''] = Some s'
             \<and> Kind s' = MappingNode \<and> oneSchemaPerName lib s'))
   \<and> (registryTracks r
      \<and> Kind n1 = MappingNode \<and> \<not> isRefOnlySchema n1
      \<and> Kind n2 = MappingNode \<and> \<not> isRefOnlySchema n2
      \<and> byFingerprint r (schemaFingerprint lib n1) = None
      \<and> byFingerprint r (schemaFingerprint lib n2) = None
      \<and> schemaFingerprint lib n1 \<noteq> schemaFingerprint lib n2
      \<and> hint \<noteq> [] \<and> hint |\<notin>| existingNames r
    \<longrightarrow> (\<exists>r1 r2 k.
           componentizeSchema lib r (Some n1) hint
             = Inr (hint, True, Some (makeRefOnlySchema n1 hint), r1)
         \<and> componentizeSchema lib r1 (Some n2) hint
             = Inr (hint @ decimal k, True, Some (makeRefOnlySchema n2 (hint @ decimal k)), r2)
         \<and> 2 \<le> k
         \<and> hint @ decimal k |\<notin>| existingNames r
         \<and> (\<forall>j. 2 \<le> j \<and> j < k \<longrightarrow> hint @ decimal j |\<in>| existingNames r)
         \<and> getMapValue (schemasNode r2) hint = Inr (Some n1)
         \<and> getMapValue (schemasNode r2) (hint @ decimal k) = Inr (Some n2)))"
  using refactor_keeps_oneSchemaPerName [of lib root changed root']
    colliding_hints [of r n1 n2 lib hint]
  by blast

theorem name_collision_safety_witness:
  "docAt docAirportTaken [''components'', ''schemas'']
     = Some (mapping [scalarNode ''Airport'', stringSchema])
   \<and> oneSchemaPerName exampleLib (mapping [scalarNode ''Airport'', stringSchema])
   \<and> \<not> isl (RefactorInlineResponseSchemas exampleLib docAirportTaken)
   \<and> (\<exists>s'. docAt (snd (projr (RefactorInlineResponseSchemas exampleLib docAirportTaken)))
               [''components'', ''schemas''] = Some s'
           \<and> oneSchemaPerName exampleLib s')
   \<and> registryTracks emptyRegistry
   \<and> schemaFingerprint exampleLib objectSchema \<noteq> schemaFingerprint exampleLib stringSchema
   \<and> (\<exists>r1 r2.
         componentizeSchema exampleLib emptyRegistry (Some objectSchema) ''A200Response''
           = Inr (''A200Response'', True, Some (refSchema ''A200Response''), r1)
       \<and> componentizeSchema exampleLib r1 (Some stringSchema) ''A200Response''
           = Inr (''A200Response2'', True, Some (refSchema ''A200Response2''), r2)
       \<and> getMapValue (schemasNode r2) ''A200Response'' = Inr (Some objectSchema)
       \<and> getMapValue (schemasNode r2) ''A200Response2'' = Inr (Some stringSchema))"
proof -
  let ?S = "mapping [scalarNode ''Airport'', stringSchema]"
  let ?X = "RefactorInlineResponseSchemas exampleLib docAirportTaken"
  have d: "docAt docAirportTaken [''components'', ''schemas''] = Some ?S"
    by code_simp
  have o: "oneSchemaPerName exampleLib ?S"
    by (simp add: oneSchemaPerName_def mapping_def)
  have km: "Kind ?S = MappingNode"
    by (simp add: mapping_def)
  have ok: "\<not> isl ?X"
    by code_simp
  then have run: "?X = Inr (fst (projr ?X), snd (projr ?X))"
    by (cases ?X) auto
  have init: "\<forall>s. docAt docAirportTaken [''components'', ''schemas''] = Some s \<longrightarrow>
                Kind s = MappingNode \<and> oneSchemaPerName exampleLib s"
    using d o km by simp
  have a: "\<exists>s'. docAt (snd (projr ?X)) [''components'', ''schemas''] = Some s'
             \<and> oneSchemaPerName exampleLib s'"
    using name_collision_safety [where lib = exampleLib and root = docAirportTaken
        and changed = "fst (projr ?X)" and root' = "snd (projr ?X)"]
      run init by blast
  have tr: "registryTracks emptyRegistry"
    by (simp add: registryTracks_def emptyRegistry_def mapping_def)
  have k: "Kind objectSchema = MappingNode" "\<not> isRefOnlySchema objectSchema"
    "Kind stringSchema = MappingNode" "\<not> isRefOnlySchema stringSchema"
    by (simp_all add: objectSchema_def stringSchema_def mapping_def isRefOnlySchema_def
        scalarNode_def)
  have e: "byFingerprint emptyRegistry (schemaFingerprint exampleLib objectSchema) = None"
    "byFingerprint emptyRegistry (schemaFingerprint exampleLib stringSchema) = None"
    "''A200Response'' \<noteq> []" "''A200Response'' |\<notin>| existingNames emptyRegistry"
    by (simp_all add: emptyRegistry_def)
  have f: "schemaFingerprint exampleLib objectSchema \<noteq> schemaFingerprint exampleLib stringSchema"
    by code_simp
  from name_collision_safety [where lib = exampleLib and r = emptyRegistry
      and ?n1.0 = objectSchema and ?n2.0 = stringSchema and hint = "''A200Response''"] tr k e f
  obtain r1 r2 k where c:
    "componentizeSchema exampleLib emptyRegistry (Some objectSchema) ''A200Response''
       = Inr (''A200Response'', True, Some (makeRefOnlySchema objectSchema ''A200Response''), r1)"
    "componentizeSchema exampleLib r1 (Some stringSchema) ''A200Response''
       = Inr (''A200Response'' @ decimal k, True,
              Some (makeRefOnlySchema stringSchema (''A200Response'' @ decimal k)), r2)"
    "2 \<le> k"
    "\<forall>j. 2 \<le> j \<and> j < k \<longrightarrow> ''A200Response'' @ decimal j |\<in>| existingNames emptyRegistry"
    "getMapValue (schemasNode r2) ''A200Response'' = Inr (Some objectSchema)"
    "getMapValue (schemasNode r2) (''A200Response'' @ decimal k) = Inr (Some stringSchema)"
    by blast
  have "k = 2"
  proof (rule ccontr)
    assume "k \<noteq> 2"
    with c(3) have "2 < k" by simp
    with c(4) have "''A200Response'' @ decimal 2 |\<in>| existingNames emptyRegistry" by blast
    then show False by (simp add: emptyRegistry_def)
  qed
  then have n2: "''A200Response'' @ decimal k = ''A200Response2''"
    by (simp add: decimal_2)
  have m: "makeRefOnlySchema objectSchema ''A200Response'' = refSchema ''A200Response''"
    "makeRefOnlySchema stringSchema ''A200Response2'' = refSchema ''A200Response2''"
    by (simp_all add: makeRefOnlySchema_def objectSchema_def stringSchema_def mapping_def
        refSchema_def setContent_def)
  have b: "\<exists>r1 r2.
         componentizeSchema exampleLib emptyRegistry (Some objectSchema) ''A200Response''
           = Inr (''A200Response'', True, Some (refSchema ''A200Response''), r1)
       \<and> componentizeSchema exampleLib r1 (Some stringSchema) ''A200Response''
           = Inr (''A200Response2'', True, Some (refSchema ''A200Response2''), r2)
       \<and> getMapValue (schemasNode r2) ''A200Response'' = Inr (Some objectSchema)
       \<and> getMapValue (schemasNode r2) ''A200Response2'' = Inr (Some stringSchema)"
    using c(1,2,5,6) unfolding n2 m by (intro exI conjI) assumption+
  from d o ok a tr f b show ?thesis
    by (intro conjI) assumption+
qed

section \<open>The walk rewrites the schemas it reaches, in order\<close>

text \<open>
  Each loop of the walk, and so the whole run, does to the registry and to the schemas
  what \<open>rewriteSites\<close> does on the list of the schemas it reaches.
\<close>

lemma rewriteSites_append:
  "rewriteSites lib (a @ b) r =
     (case rewriteSites lib a r of
        Inl e \<Rightarrow> Inl e
      | Inr (da, r1) \<Rightarrow>
          (case rewriteSites lib b r1 of
             Inl e \<Rightarrow> Inl e
           | Inr (db, r2) \<Rightarrow> Inr (da @ db, r2)))"
  by (induction a arbitrary: r) (auto split: sum.splits)

lemma rewritten_Nil [simp]: "rewritten lib [] r [] r"
  by (simp add: rewritten_def)

lemma rewritten_append:
  "rewritten lib a r a' r1 \<Longrightarrow> rewritten lib b r1 b' r2 \<Longrightarrow>
   rewritten lib (a @ b) r (a' @ b') r2"
  by (simp add: rewritten_def rewriteSites_append)

lemma processResponseSchema_cases:
  assumes "processResponseSchema lib path meth oid status c r = Inr (ch, c', r')"
  shows "(schemaOfResponse c = None \<and> c' = c \<and> r' = r)
       \<or> (\<exists>s s'. schemaOfResponse c = Some s
             \<and> processSchemaNode lib path meth oid status s r = Inr (ch, s', r')
             \<and> schemaOfResponse c' = Some s')"
proof (cases "schemaOfResponse c")
  case None
  with assms show ?thesis
    by (auto simp: processResponseSchema_def schemaOfResponse_def
        split: if_splits sum.splits option.splits)
next
  case (Some s)
  then obtain cn ct aj where kc: "Kind c = MappingNode"
    and cn: "getMapValue c ''content'' = Inr (Some cn)" "Kind cn = MappingNode"
    and sel: "firstContentType cn contentTypes = Inr (Some (ct, aj))" "Kind aj = MappingNode"
    and s: "getMapValue aj ''schema'' = Inr (Some s)" "Kind s = MappingNode"
    by (auto simp: schemaOfResponse_def split: if_splits sum.splits option.splits)
  with assms obtain s' where
    p: "processSchemaNode lib path meth oid status s r = Inr (ch, s', r')"
    and c': "c' = setMapValue c ''content'' (setMapValue cn ct (setMapValue aj ''schema'' s'))"
    by (auto simp: processResponseSchema_def split: sum.splits)
  have ks: "Kind s' = MappingNode"
    using processSchemaNode_result [OF p s(2)] by simp
  have "schemaOfResponse c' = Some s'"
    using kc cn sel s ks
    by (simp add: schemaOfResponse_def c' getMapValue_setMapValue_same
        firstContentType_setMapValue)
  with Some p show ?thesis by simp
qed

lemma processResponseSchema_rewritten:
  assumes "processResponseSchema lib path meth oid status c r = Inr (ch, c', r')"
  shows "rewritten lib (sitesOfResponse path meth oid status c) r
           (sitesOfResponse path meth oid status c') r'"
  using processResponseSchema_cases [OF assms]
  by (auto simp: rewritten_def sitesOfResponse_def sitePlace_def)

lemma walkResponses_rewritten:
  "walkResponses lib path meth oid xs r = Inr (ch, xs', r') \<Longrightarrow>
   rewritten lib (sitesOfResponses path meth oid xs) r (sitesOfResponses path meth oid xs') r'"
proof (induction lib path meth oid xs r arbitrary: ch xs' r' rule: walkResponses.induct)
  case (1 lib path meth oid r)
  then show ?case by simp
next
  case (2 lib path meth oid codeKey r)
  then show ?case by simp
next
  case (3 lib path meth oid codeKey codeVal rest r)
  from "3.prems" obtain ch1 codeVal' r1 ch2 rest' where
    a: "processResponseSchema lib path meth oid (Value codeKey) codeVal r = Inr (ch1, codeVal', r1)"
    and b: "walkResponses lib path meth oid rest r1 = Inr (ch2, rest', r')"
    and c: "xs' = codeKey # codeVal' # rest'"
    by (fastforce split: sum.splits prod.splits)
  show ?case
    unfolding c using processResponseSchema_rewritten [OF a] "3.IH" [OF a refl refl b]
    by (simp add: rewritten_append)
qed


lemma operationIdOf_setMapValue [simp]:
  "operationIdOf (setMapValue v ''responses'' x) = operationIdOf v"
  by (simp add: operationIdOf_def getMapValue_setMapValue_other)

lemma walkOperation_rewritten:
  assumes "walkOperation lib path methodKey methodVal r = Inr (ch, v', r')"
  shows "rewritten lib (sitesOfOperation path methodKey methodVal) r
           (sitesOfOperation path methodKey v') r'"
proof (cases "Value methodKey \<in> set httpMethods \<and> Kind methodVal = MappingNode
              \<and> (\<exists>rn. getMapValue methodVal ''responses'' = Inr (Some rn) \<and> Kind rn = MappingNode)")
  case False
  with assms have "v' = methodVal" "r' = r"
    by (auto simp: walkOperation_def Let_def split: if_splits sum.splits option.splits)
  moreover from False assms have "sitesOfOperation path methodKey methodVal = []"
    by (auto simp: sitesOfOperation_def walkOperation_def Let_def
        split: if_splits sum.splits option.splits)
  ultimately show ?thesis by simp
next
  case True
  then obtain rn where m: "Value methodKey \<in> set httpMethods" "Kind methodVal = MappingNode"
    and rn: "getMapValue methodVal ''responses'' = Inr (Some rn)" "Kind rn = MappingNode"
    by auto
  with assms obtain content' where
    w: "walkResponses lib path (Value methodKey) (operationIdOf methodVal) (Content rn) r
          = Inr (ch, content', r')"
    and v': "v' = setMapValue methodVal ''responses'' (setContent rn content')"
    by (auto simp: walkOperation_def Let_def operationIdOf_def
        split: if_splits sum.splits option.splits)
  have "sitesOfOperation path methodKey v'
          = sitesOfResponses path (Value methodKey) (operationIdOf methodVal) content'"
    using m rn by (simp add: sitesOfOperation_def v' getMapValue_setMapValue_same)
  moreover have "sitesOfOperation path methodKey methodVal
          = sitesOfResponses path (Value methodKey) (operationIdOf methodVal) (Content rn)"
    using m rn by (simp add: sitesOfOperation_def)
  ultimately show ?thesis
    using walkResponses_rewritten [OF w] by simp
qed

lemma walkOperations_rewritten:
  "walkOperations lib path xs r = Inr (ch, xs', r') \<Longrightarrow>
   rewritten lib (sitesOfOperations path xs) r (sitesOfOperations path xs') r'"
proof (induction lib path xs r arbitrary: ch xs' r' rule: walkOperations.induct)
  case (1 lib path r)
  then show ?case by simp
next
  case (2 lib path methodKey r)
  then show ?case by simp
next
  case (3 lib path methodKey methodVal rest r)
  from "3.prems" obtain ch1 v1 r1 ch2 rest' where
    a: "walkOperation lib path methodKey methodVal r = Inr (ch1, v1, r1)"
    and b: "walkOperations lib path rest r1 = Inr (ch2, rest', r')"
    and c: "xs' = methodKey # v1 # rest'"
    by (fastforce split: sum.splits prod.splits)
  show ?case
    unfolding c using walkOperation_rewritten [OF a] "3.IH" [OF a refl refl b]
    by (simp add: rewritten_append)
qed

lemma walkPaths_rewritten:
  "walkPaths lib xs r = Inr (ch, xs', r') \<Longrightarrow>
   rewritten lib (sitesOfPaths xs) r (sitesOfPaths xs') r'"
proof (induction lib xs r arbitrary: ch xs' r' rule: walkPaths.induct)
  case (1 lib r)
  then show ?case by simp
next
  case (2 lib pathKey r)
  then show ?case by simp
next
  case (3 lib pathKey pathVal rest r)
  let ?here = "if Kind pathVal \<noteq> MappingNode then Inr (False, pathVal, r)
               else (case walkOperations lib (Value pathKey) (Content pathVal) r of
                       Inl e \<Rightarrow> Inl e
                     | Inr (changed, content', r') \<Rightarrow>
                         Inr (changed, setContent pathVal content', r'))"
  from "3.prems" obtain ch1 v1 r1 ch2 rest' where
    a: "?here = Inr (ch1, v1, r1)"
    and b: "walkPaths lib rest r1 = Inr (ch2, rest', r')"
    and c: "xs' = pathKey # v1 # rest'"
    by (fastforce split: sum.splits prod.splits)
  have here: "rewritten lib
                (if Kind pathVal \<noteq> MappingNode then []
                 else sitesOfOperations (Value pathKey) (Content pathVal)) r
                (if Kind v1 \<noteq> MappingNode then []
                 else sitesOfOperations (Value pathKey) (Content v1)) r1"
    using a by (auto split: if_splits sum.splits dest: walkOperations_rewritten)
  show ?case
    unfolding c using here "3.IH" [OF a refl refl b]
    by (simp add: rewritten_append)
qed


lemma lookupPairs_append_found:
  "lookupPairs xs key = Inr (Some v) \<Longrightarrow> lookupPairs (xs @ ys) key = Inr (Some v)"
  by (induction xs key rule: lookupPairs.induct) (auto split: if_splits)

lemma lookupPairs_Inr_even:
  "lookupPairs xs key = Inr None \<Longrightarrow> even (length xs)"
  by (induction xs key rule: lookupPairs.induct) (auto split: if_splits)

lemma ensureMapValue_other:
  assumes "ensureMapValue m key = Inr (m1, v)" and "Kind m = MappingNode"
    and "key' \<noteq> key" and "getMapValue m1 key' = Inr (Some x)"
  shows "getMapValue m key' = Inr (Some x)"
proof (cases "getMapValue m key")
  case (Inl e)
  with assms show ?thesis by (simp add: ensureMapValue_def)
next
  case (Inr found)
  show ?thesis
  proof (cases found)
    case (Some y)
    with Inr assms show ?thesis by (simp add: ensureMapValue_def)
  next
    case None
    with Inr assms(1,2) have m1: "m1 = setContent m (Content m @ [scalarNode key, v])"
      by (auto simp: ensureMapValue_def Let_def)
    from None Inr assms(2) have "even (length (Content m))"
      by (auto simp: getMapValue_def dest: lookupPairs_Inr_even)
    then obtain f where f: "lookupPairs (Content m) key' = Inr f"
      using lookupPairs_even_total by blast
    from assms(4) show ?thesis
      using assms(2,3) lookupPairs_append [OF f, of "scalarNode key" v]
      by (auto simp: m1 getMapValue_def f scalarNode_def split: option.splits if_splits)
  qed
qed

lemma refactor_walk:
  assumes run: "RefactorInlineResponseSchemas lib root = Inr (changed, root')"
  shows "\<exists>pathsNode reg content' reg'.
           docAt root [''paths''] = Some pathsNode \<and> Kind pathsNode = MappingNode
         \<and> newSchemaRegistry lib (initialSchemas root) = Inr reg
         \<and> walkPaths lib (Content pathsNode) reg = Inr (changed, content', reg')
         \<and> docAt root' [''paths''] = Some (setContent pathsNode content')
         \<and> docAt root' [''components'', ''schemas''] = Some (schemasNode reg')"
proof -
  from run have doc: "Kind root = DocumentNode" "Content root \<noteq> []"
    by (auto simp: RefactorInlineResponseSchemas_def split: if_splits)
  define t where "t = Content root ! 0"
  from doc have cr: "Content root = t # tl (Content root)"
    by (cases "Content root") (simp_all add: t_def)
  from run doc have kt: "Kind t = MappingNode"
    by (auto simp: RefactorInlineResponseSchemas_def Let_def t_def split: if_splits)
  from run doc kt obtain top1 comp comp1 s0 reg pathsNode content' reg' where
    e1: "ensureMapValue t ''components'' = Inr (top1, comp)"
    and e2: "ensureMapValue comp ''schemas'' = Inr (comp1, s0)"
    and nr: "newSchemaRegistry lib s0 = Inr reg"
    and gp: "getMapValue (setMapValue top1 ''components'' comp1) ''paths'' = Inr (Some pathsNode)"
    and kp: "Kind pathsNode = MappingNode"
    and wp: "walkPaths lib (Content pathsNode) reg = Inr (changed, content', reg')"
    and root': "root' = setContent root
        (setMapValue
           (setMapValue (setMapValue top1 ''components'' comp1) ''components''
              (setMapValue comp1 ''schemas'' (schemasNode reg')))
           ''paths'' (setContent pathsNode content')
         # tl (Content root))"
    by (auto simp: RefactorInlineResponseSchemas_def Let_def t_def
        split: if_splits sum.splits option.splits prod.splits)
  have t1: "Kind top1 = MappingNode" "getMapValue top1 ''components'' = Inr (Some comp)"
    using ensureMapValue_result [OF e1] by simp_all
  have c1: "Kind comp1 = MappingNode" "getMapValue comp1 ''schemas'' = Inr (Some s0)"
    using ensureMapValue_result [OF e2] by simp_all
  \<comment> \<open>the schemas node the run starts from\<close>
  have start: "s0 = initialSchemas root"
  proof (cases "docAt root [''components'', ''schemas'']")
    case (Some s)
    then obtain c where g1: "getMapValue t ''components'' = Inr (Some c)"
      and g2: "getMapValue c ''schemas'' = Inr (Some s)"
      by (subst (asm) docAt_def, subst (asm) cr)
         (auto split: sum.splits option.splits)
    from ensureMapValue_found [OF g1] e1 have "comp = c" by simp
    with ensureMapValue_found [OF g2] e2 have "s0 = s" by simp
    with Some show ?thesis by (simp add: initialSchemas_def)
  next
    case None
    have "s0 = Node MappingNode [] [] []"
    proof (rule ccontr)
      assume ne: "s0 \<noteq> Node MappingNode [] [] []"
      with ensureMapValue_cases [OF e2] have g2: "getMapValue comp ''schemas'' = Inr (Some s0)"
        by simp
      then have "comp \<noteq> Node MappingNode [] [] []"
        by (auto simp: getMapValue_def)
      with ensureMapValue_cases [OF e1] have g1: "getMapValue t ''components'' = Inr (Some comp)"
        by simp
      have "docAt root [''components'', ''schemas''] = Some s0"
        using g1 g2 by (subst docAt_def, subst cr) simp
      with None show False by simp
    qed
    with None show ?thesis by (simp add: initialSchemas_def)
  qed
  \<comment> \<open>the paths node\<close>
  have "getMapValue top1 ''paths'' = Inr (Some pathsNode)"
    using gp by (simp add: getMapValue_setMapValue_other)
  then have gt: "getMapValue t ''paths'' = Inr (Some pathsNode)"
    using ensureMapValue_other [OF e1 kt] by simp
  have before: "docAt root [''paths''] = Some pathsNode"
    using gt by (subst docAt_def, subst cr) simp
  let ?comp2 = "setMapValue comp1 ''schemas'' (schemasNode reg')"
  let ?top3 = "setMapValue top1 ''components'' ?comp2"
  let ?top4 = "setMapValue ?top3 ''paths'' (setContent pathsNode content')"
  have g3: "getMapValue ?top3 ''paths'' = Inr (Some pathsNode)"
    using gp by (simp add: getMapValue_setMapValue_other)
  have "getMapValue ?top4 ''paths'' = Inr (Some (setContent pathsNode content'))"
    using g3 by (simp add: getMapValue_setMapValue_same)
  then have after: "docAt root' [''paths''] = Some (setContent pathsNode content')"
    by (simp add: docAt_def root')
  have g4: "getMapValue ?top4 ''components'' = Inr (Some ?comp2)"
    using t1 by (simp add: getMapValue_setMapValue_other getMapValue_setMapValue_same)
  have g5: "getMapValue ?comp2 ''schemas'' = Inr (Some (schemasNode reg'))"
    using c1 by (simp add: getMapValue_setMapValue_same)
  have fin: "docAt root' [''components'', ''schemas''] = Some (schemasNode reg')"
    using g4 g5 by (simp add: docAt_def root')
  show ?thesis
    using nr start wp kp before after fin by auto
qed

text \<open>
  A successful run is the rewriting, from left to right, of the schemas the walk reaches:
  it starts from the registry seeded with \<open>components.schemas\<close> of the document, the schemas
  reached in the document after the run are the rewritten ones at the same places, and
  \<open>components.schemas\<close> after the run is the schemas node of the last registry.
\<close>

lemma refactor_rewrites:
  assumes run: "RefactorInlineResponseSchemas lib root = Inr (changed, root')"
  shows "\<exists>reg reg'. newSchemaRegistry lib (initialSchemas root) = Inr reg
           \<and> rewritten lib (sites root) reg (sites root') reg'
           \<and> docAt root' [''components'', ''schemas''] = Some (schemasNode reg')"
proof -
  from refactor_walk [OF run] obtain pathsNode reg content' reg' where
    p: "docAt root [''paths''] = Some pathsNode" "Kind pathsNode = MappingNode"
    and nr: "newSchemaRegistry lib (initialSchemas root) = Inr reg"
    and wp: "walkPaths lib (Content pathsNode) reg = Inr (changed, content', reg')"
    and p': "docAt root' [''paths''] = Some (setContent pathsNode content')"
    and fin: "docAt root' [''components'', ''schemas''] = Some (schemasNode reg')"
    by blast
  have "sites root = sitesOfPaths (Content pathsNode)" "sites root' = sitesOfPaths content'"
    using p p' by (simp_all add: sites_def)
  with walkPaths_rewritten [OF wp] nr fin show ?thesis by auto
qed

lemma rewriteSites_length:
  "rewriteSites lib ss r = Inr (outs, r') \<Longrightarrow> length outs = length ss"
  by (induction ss arbitrary: r outs) (auto split: sum.splits)

lemma rewriteSites_lift:
  "keptBySchemaRewrite lib P \<Longrightarrow> \<forall>x \<in> set ss. Kind (siteSchema x) = MappingNode \<Longrightarrow>
   rewriteSites lib ss r = Inr (outs, r') \<Longrightarrow> P r \<Longrightarrow> P r'"
proof (induction ss arbitrary: r outs)
  case Nil
  then show ?case by simp
next
  case (Cons x ss)
  from Cons.prems(3) obtain ch s' r1 d where
    a: "processSchemaNode lib (sitePath x) (siteMethod x) (siteOperationID x) (siteStatus x)
          (siteSchema x) r = Inr (ch, s', r1)"
    and b: "rewriteSites lib ss r1 = Inr (d, r')"
    by (auto split: sum.splits)
  have "P r1"
    using keptD [OF Cons.prems(1) a] Cons.prems(2,4) by simp
  then show ?case
    using Cons.IH [OF Cons.prems(1) _ b] Cons.prems(2) by simp
qed

lemma rewriteSites_nth:
  assumes "rewriteSites lib ss r = Inr (outs, r')" and "i < length ss"
  shows "\<exists>d ri ch ri' d'.
           rewriteSites lib (take i ss) r = Inr (d, ri)
         \<and> processSchemaNode lib (sitePath (ss ! i)) (siteMethod (ss ! i))
             (siteOperationID (ss ! i)) (siteStatus (ss ! i)) (siteSchema (ss ! i)) ri
             = Inr (ch, outs ! i, ri')
         \<and> rewriteSites lib (drop (Suc i) ss) ri' = Inr (d', r')"
proof -
  have ss: "ss = take i ss @ (ss ! i # drop (Suc i) ss)"
    using assms(2) by (simp add: id_take_nth_drop)
  from assms(1) obtain d ri rest where
    a: "rewriteSites lib (take i ss) r = Inr (d, ri)"
    and b: "rewriteSites lib (ss ! i # drop (Suc i) ss) ri = Inr (rest, r')"
    and c: "outs = d @ rest"
    by (subst (asm) ss, subst (asm) rewriteSites_append) (auto split: sum.splits)
  from b obtain ch s' ri' d' where
    p: "processSchemaNode lib (sitePath (ss ! i)) (siteMethod (ss ! i))
             (siteOperationID (ss ! i)) (siteStatus (ss ! i)) (siteSchema (ss ! i)) ri
             = Inr (ch, s', ri')"
    and q: "rewriteSites lib (drop (Suc i) ss) ri' = Inr (d', r')"
    and e: "rest = s' # d'"
    by (auto split: sum.splits)
  have "length d = i"
    using rewriteSites_length [OF a] assms(2) by simp
  then have "outs ! i = s'"
    by (simp add: c e nth_append)
  with a p q show ?thesis by blast
qed

lemma sitesOfResponse_Kind:
  "x \<in> set (sitesOfResponse path meth oid status c) \<Longrightarrow> Kind (siteSchema x) = MappingNode"
  by (auto simp: sitesOfResponse_def schemaOfResponse_def
      split: option.splits if_splits sum.splits)

lemma sitesOfResponses_Kind:
  "x \<in> set (sitesOfResponses path meth oid xs) \<Longrightarrow> Kind (siteSchema x) = MappingNode"
  by (induction path meth oid xs rule: sitesOfResponses.induct)
     (auto dest: sitesOfResponse_Kind)

lemma sitesOfOperation_Kind:
  "x \<in> set (sitesOfOperation path k v) \<Longrightarrow> Kind (siteSchema x) = MappingNode"
  by (auto simp: sitesOfOperation_def split: if_splits sum.splits option.splits
      dest: sitesOfResponses_Kind)

lemma sitesOfOperations_Kind:
  "x \<in> set (sitesOfOperations path xs) \<Longrightarrow> Kind (siteSchema x) = MappingNode"
  by (induction path xs rule: sitesOfOperations.induct)
     (auto dest: sitesOfOperation_Kind)

lemma sitesOfPaths_Kind:
  "x \<in> set (sitesOfPaths xs) \<Longrightarrow> Kind (siteSchema x) = MappingNode"
  by (induction xs rule: sitesOfPaths.induct)
     (auto dest: sitesOfOperations_Kind split: if_splits)

lemma sites_Kind: "x \<in> set (sites root) \<Longrightarrow> Kind (siteSchema x) = MappingNode"
  by (auto simp: sites_def split: option.splits if_splits dest: sitesOfPaths_Kind)

lemma extends_getMapValue:
  "extends s s' \<Longrightarrow> getMapValue s key = Inr (Some v) \<Longrightarrow> getMapValue s' key = Inr (Some v)"
  by (auto simp: extends_def getMapValue_def lookupPairs_append_found split: if_splits)

lemma site_eqI:
  "sitePlace x = (path, meth, oid, status) \<Longrightarrow> siteSchema x = s \<Longrightarrow>
   x = Site path meth oid status s"
  by (cases x) (simp add: sitePlace_def)

lemma rewritten_nth:
  assumes "rewritten lib before r after r'" and "i < length before"
    and "before ! i = Site path meth oid status s"
    and "rewriteSites lib before r = Inr (outs, r')"
  shows "after ! i = Site path meth oid status (outs ! i)"
proof -
  from assms(1) have m: "map sitePlace after = map sitePlace before"
    and d: "Inr (map siteSchema after, r') = rewriteSites lib before r"
    by (simp_all add: rewritten_def)
  from m have len: "length after = length before"
    by (rule map_eq_imp_length_eq)
  from m have "map sitePlace after ! i = map sitePlace before ! i" by simp
  then have p: "sitePlace (after ! i) = (path, meth, oid, status)"
    using assms(2,3) len by (simp add: sitePlace_def)
  from d assms(4) have "map siteSchema after = outs" by simp
  then have "siteSchema (after ! i) = outs ! i"
    using assms(2) len by auto
  with p show ?thesis by (rule site_eqI)
qed

lemma nodeAt_append:
  "nodeAt n (ks @ ks') = (case nodeAt n ks of None \<Rightarrow> None | Some m \<Rightarrow> nodeAt m ks')"
  by (induction ks arbitrary: n) (auto split: sum.splits option.splits)

lemma docAt_snoc:
  "docAt root ks = Some m \<Longrightarrow>
   docAt root (ks @ [key]) = (case getMapValue m key of Inr (Some v) \<Rightarrow> Some v | _ \<Rightarrow> None)"
  by (auto simp: docAt_def nodeAt_append split: list.splits sum.splits option.splits)

lemma docAt_snoc_Some:
  "docAt root (ks @ [key]) = Some v \<Longrightarrow>
   \<exists>m. docAt root ks = Some m \<and> getMapValue m key = Inr (Some v)"
  by (auto simp: docAt_def nodeAt_append split: list.splits option.splits sum.splits)

lemma Inr_collapse2: "\<not> isl x \<Longrightarrow> x = Inr (fst (projr x), snd (projr x))"
  by (cases x) auto

lemma Inr_collapse1: "\<not> isl x \<Longrightarrow> x = Inr (projr x)"
  by (cases x) auto

lemma lookupPairs_split:
  "lookupPairs xs key = Inr (Some v) \<Longrightarrow>
   \<exists>pre k post. xs = pre @ k # v # post \<and> even (length pre) \<and> Value k = key"
proof (induction xs key rule: lookupPairs.induct)
  case (3 k v' rest key)
  show ?case
  proof (cases "Value k = key")
    case True
    with "3.prems" have "k # v' # rest = [] @ k # v # rest \<and> even (length ([]::node list))"
      by simp
    with True show ?thesis by blast
  next
    case False
    with "3.prems" "3.IH" obtain pre k' post where
      "rest = pre @ k' # v # post" "even (length pre)" "Value k' = key"
      by auto
    then have "k # v' # rest = (k # v' # pre) @ k' # v # post \<and> even (length (k # v' # pre))"
      by simp
    with \<open>Value k' = key\<close> show ?thesis by blast
  qed
qed simp_all

lemma sitesOfResponses_append:
  "even (length pre) \<Longrightarrow>
   sitesOfResponses path meth oid (pre @ rest)
     = sitesOfResponses path meth oid pre @ sitesOfResponses path meth oid rest"
  by (induction path meth oid pre rule: sitesOfResponses.induct) auto

lemma sitesOfOperations_append:
  "even (length pre) \<Longrightarrow>
   sitesOfOperations path (pre @ rest) = sitesOfOperations path pre @ sitesOfOperations path rest"
  by (induction path pre rule: sitesOfOperations.induct) auto

lemma sitesOfPaths_append:
  "even (length pre) \<Longrightarrow> sitesOfPaths (pre @ rest) = sitesOfPaths pre @ sitesOfPaths rest"
  by (induction pre rule: sitesOfPaths.induct) auto

text \<open>
  Where the value found under a key stands in the list of the schemas reached, before and
  after a loop of the walk.
\<close>

lemma rewritten_length: "rewritten lib a r a' r' \<Longrightarrow> length a' = length a"
  by (auto simp: rewritten_def dest: map_eq_imp_length_eq)

lemma walkResponses_at:
  "walkResponses lib path meth oid xs r = Inr (ch, xs', r') \<Longrightarrow>
   lookupPairs xs status = Inr (Some c) \<Longrightarrow>
   \<exists>c' A B A' B' r1 ch1 r2.
       lookupPairs xs' status = Inr (Some c')
     \<and> processResponseSchema lib path meth oid status c r1 = Inr (ch1, c', r2)
     \<and> sitesOfResponses path meth oid xs = A @ sitesOfResponse path meth oid status c @ B
     \<and> sitesOfResponses path meth oid xs' = A' @ sitesOfResponse path meth oid status c' @ B'
     \<and> length A' = length A"
proof (induction lib path meth oid xs r arbitrary: ch xs' r' rule: walkResponses.induct)
  case (1 lib path meth oid r)
  then show ?case by simp
next
  case (2 lib path meth oid codeKey r)
  then show ?case by simp
next
  case (3 lib path meth oid codeKey codeVal rest r)
  from "3.prems"(1) obtain ch1 codeVal' r1 ch2 rest' where
    a: "processResponseSchema lib path meth oid (Value codeKey) codeVal r = Inr (ch1, codeVal', r1)"
    and b: "walkResponses lib path meth oid rest r1 = Inr (ch2, rest', r')"
    and c: "xs' = codeKey # codeVal' # rest'"
    by (fastforce split: sum.splits prod.splits)
  show ?case
  proof (cases "Value codeKey = status")
    case True
    with "3.prems"(2) have cv: "c = codeVal" by simp
    have "lookupPairs xs' status = Inr (Some codeVal')"
      using True by (simp add: c)
    moreover have "sitesOfResponses path meth oid (codeKey # codeVal # rest)
           = [] @ sitesOfResponse path meth oid status c @ sitesOfResponses path meth oid rest"
      using True cv by simp
    moreover have "sitesOfResponses path meth oid xs'
           = [] @ sitesOfResponse path meth oid status codeVal' @ sitesOfResponses path meth oid rest'"
      using True by (simp add: c)
    moreover have "processResponseSchema lib path meth oid status c r = Inr (ch1, codeVal', r1)"
      using a True cv by simp
    ultimately show ?thesis by blast
  next
    case False
    with "3.prems"(2) have l: "lookupPairs rest status = Inr (Some c)" by simp
    from "3.IH" [OF a refl refl b l] obtain c' A B A' B' ra cha rb where
      h: "lookupPairs rest' status = Inr (Some c')"
        "processResponseSchema lib path meth oid status c ra = Inr (cha, c', rb)"
        "sitesOfResponses path meth oid rest = A @ sitesOfResponse path meth oid status c @ B"
        "sitesOfResponses path meth oid rest' = A' @ sitesOfResponse path meth oid status c' @ B'"
        "length A' = length A"
      by blast
    let ?H = "sitesOfResponse path meth oid (Value codeKey) codeVal"
    let ?H' = "sitesOfResponse path meth oid (Value codeKey) codeVal'"
    have len: "length ?H' = length ?H"
      using processResponseSchema_rewritten [OF a] by (rule rewritten_length)
    have "lookupPairs xs' status = Inr (Some c')"
      using False h(1) by (simp add: c)
    moreover have "sitesOfResponses path meth oid (codeKey # codeVal # rest)
           = (?H @ A) @ sitesOfResponse path meth oid status c @ B"
      using h(3) by simp
    moreover have "sitesOfResponses path meth oid xs'
           = (?H' @ A') @ sitesOfResponse path meth oid status c' @ B'"
      using h(4) by (simp add: c)
    moreover have "length (?H' @ A') = length (?H @ A)"
      using len h(5) by simp
    ultimately show ?thesis using h(2) by blast
  qed
qed

lemma walkOperations_at:
  "walkOperations lib path xs r = Inr (ch, xs', r') \<Longrightarrow>
   lookupPairs xs meth = Inr (Some v) \<Longrightarrow>
   \<exists>k v' A B A' B' r1 ch1 r2.
       Value k = meth
     \<and> lookupPairs xs' meth = Inr (Some v')
     \<and> walkOperation lib path k v r1 = Inr (ch1, v', r2)
     \<and> sitesOfOperations path xs = A @ sitesOfOperation path k v @ B
     \<and> sitesOfOperations path xs' = A' @ sitesOfOperation path k v' @ B'
     \<and> length A' = length A"
proof (induction lib path xs r arbitrary: ch xs' r' rule: walkOperations.induct)
  case (1 lib path r)
  then show ?case by simp
next
  case (2 lib path methodKey r)
  then show ?case by simp
next
  case (3 lib path methodKey methodVal rest r)
  from "3.prems"(1) obtain ch1 v1 r1 ch2 rest' where
    a: "walkOperation lib path methodKey methodVal r = Inr (ch1, v1, r1)"
    and b: "walkOperations lib path rest r1 = Inr (ch2, rest', r')"
    and c: "xs' = methodKey # v1 # rest'"
    by (fastforce split: sum.splits prod.splits)
  show ?case
  proof (cases "Value methodKey = meth")
    case True
    with "3.prems"(2) have cv: "v = methodVal" by simp
    have "lookupPairs xs' meth = Inr (Some v1)"
      using True by (simp add: c)
    moreover have "sitesOfOperations path (methodKey # methodVal # rest)
           = [] @ sitesOfOperation path methodKey v @ sitesOfOperations path rest"
      using cv by simp
    moreover have "sitesOfOperations path xs'
           = [] @ sitesOfOperation path methodKey v1 @ sitesOfOperations path rest'"
      by (simp add: c)
    moreover have "walkOperation lib path methodKey v r = Inr (ch1, v1, r1)"
      using a cv by simp
    ultimately show ?thesis using True by blast
  next
    case False
    with "3.prems"(2) have l: "lookupPairs rest meth = Inr (Some v)" by simp
    from "3.IH" [OF a refl refl b l] obtain k v' A B A' B' ra cha rb where
      h: "Value k = meth" "lookupPairs rest' meth = Inr (Some v')"
        "walkOperation lib path k v ra = Inr (cha, v', rb)"
        "sitesOfOperations path rest = A @ sitesOfOperation path k v @ B"
        "sitesOfOperations path rest' = A' @ sitesOfOperation path k v' @ B'"
        "length A' = length A"
      by blast
    let ?H = "sitesOfOperation path methodKey methodVal"
    let ?H' = "sitesOfOperation path methodKey v1"
    have len: "length ?H' = length ?H"
      using walkOperation_rewritten [OF a] by (rule rewritten_length)
    have "lookupPairs xs' meth = Inr (Some v')"
      using False h(2) by (simp add: c)
    moreover have "sitesOfOperations path (methodKey # methodVal # rest)
           = (?H @ A) @ sitesOfOperation path k v @ B"
      using h(4) by simp
    moreover have "sitesOfOperations path xs' = (?H' @ A') @ sitesOfOperation path k v' @ B'"
      using h(5) by (simp add: c)
    moreover have "length (?H' @ A') = length (?H @ A)"
      using len h(6) by simp
    ultimately show ?thesis using h(1,3) by blast
  qed
qed

lemma walkPaths_at:
  "walkPaths lib xs r = Inr (ch, xs', r') \<Longrightarrow>
   lookupPairs xs path = Inr (Some v) \<Longrightarrow> Kind v = MappingNode \<Longrightarrow>
   \<exists>content' A B A' B' r1 ch1 r2.
       lookupPairs xs' path = Inr (Some (setContent v content'))
     \<and> walkOperations lib path (Content v) r1 = Inr (ch1, content', r2)
     \<and> sitesOfPaths xs = A @ sitesOfOperations path (Content v) @ B
     \<and> sitesOfPaths xs' = A' @ sitesOfOperations path content' @ B'
     \<and> length A' = length A"
proof (induction lib xs r arbitrary: ch xs' r' rule: walkPaths.induct)
  case (1 lib r)
  then show ?case by simp
next
  case (2 lib pathKey r)
  then show ?case by simp
next
  case (3 lib pathKey pathVal rest r)
  let ?here = "if Kind pathVal \<noteq> MappingNode then Inr (False, pathVal, r)
               else (case walkOperations lib (Value pathKey) (Content pathVal) r of
                       Inl e \<Rightarrow> Inl e
                     | Inr (changed, content', r') \<Rightarrow>
                         Inr (changed, setContent pathVal content', r'))"
  let ?S = "\<lambda>v. if Kind v \<noteq> MappingNode then []
                 else sitesOfOperations (Value pathKey) (Content v)"
  from "3.prems"(1) obtain ch1 v1 r1 ch2 rest' where
    a: "?here = Inr (ch1, v1, r1)"
    and b: "walkPaths lib rest r1 = Inr (ch2, rest', r')"
    and c: "xs' = pathKey # v1 # rest'"
    by (fastforce split: sum.splits prod.splits)
  have here: "rewritten lib (?S pathVal) r (?S v1) r1"
    using a by (auto split: if_splits sum.splits dest: walkOperations_rewritten)
  show ?case
  proof (cases "Value pathKey = path")
    case True
    with "3.prems"(2) have cv: "v = pathVal" by simp
    with a "3.prems"(3) obtain content' where
      w: "walkOperations lib path (Content v) r = Inr (ch1, content', r1)"
      and v1: "v1 = setContent v content'"
      using True by (auto split: sum.splits)
    have "lookupPairs xs' path = Inr (Some (setContent v content'))"
      using True by (simp add: c v1)
    moreover have "sitesOfPaths (pathKey # pathVal # rest)
           = [] @ sitesOfOperations path (Content v) @ sitesOfPaths rest"
      using cv True "3.prems"(3) by simp
    moreover have "sitesOfPaths xs' = [] @ sitesOfOperations path content' @ sitesOfPaths rest'"
      using True "3.prems"(3) by (simp add: c v1)
    ultimately show ?thesis using w by blast
  next
    case False
    with "3.prems"(2) have l: "lookupPairs rest path = Inr (Some v)" by simp
    from "3.IH" [OF a refl refl b l "3.prems"(3)] obtain content' A B A' B' ra cha rb where
      h: "lookupPairs rest' path = Inr (Some (setContent v content'))"
        "walkOperations lib path (Content v) ra = Inr (cha, content', rb)"
        "sitesOfPaths rest = A @ sitesOfOperations path (Content v) @ B"
        "sitesOfPaths rest' = A' @ sitesOfOperations path content' @ B'"
        "length A' = length A"
      by blast
    have len: "length (?S v1) = length (?S pathVal)"
      using here by (rule rewritten_length)
    have "lookupPairs xs' path = Inr (Some (setContent v content'))"
      using False h(1) by (simp add: c)
    moreover have "sitesOfPaths (pathKey # pathVal # rest)
           = (?S pathVal @ A) @ sitesOfOperations path (Content v) @ B"
      using h(3) by simp
    moreover have "sitesOfPaths xs' = (?S v1 @ A') @ sitesOfOperations path content' @ B'"
      using h(4) by (simp add: c)
    moreover have "length (?S v1 @ A') = length (?S pathVal @ A)"
      using len h(5) by simp
    ultimately show ?thesis using h(2) by blast
  qed
qed

text \<open>
  A response schema found by following the keys of a document
  (\<open>paths\<close>, the path, the method, \<open>responses\<close>, the status code) is one the walk reaches.
\<close>

lemma docAt_is_site:
  assumes op: "docAt root [''paths'', path, meth] = Some opNode"
    and meth: "meth \<in> set httpMethods"
    and resp: "nodeAt opNode [''responses'', status] = Some responseNode"
    and schema: "schemaOfResponse responseNode = Some s"
  shows "Site path meth (operationIdOf opNode) status s \<in> set (sites root)"
proof -
  from op obtain t rest pathsNode pathItem where
    cr: "Content root = t # rest"
    and g1: "getMapValue t ''paths'' = Inr (Some pathsNode)"
    and g2: "getMapValue pathsNode path = Inr (Some pathItem)"
    and g3: "getMapValue pathItem meth = Inr (Some opNode)"
    by (auto simp: docAt_def split: list.splits sum.splits option.splits)
  from resp obtain respNode where
    g4: "getMapValue opNode ''responses'' = Inr (Some respNode)"
    and g5: "getMapValue respNode status = Inr (Some responseNode)"
    by (auto split: sum.splits option.splits)
  have k: "Kind pathsNode = MappingNode" "Kind pathItem = MappingNode"
    "Kind opNode = MappingNode" "Kind respNode = MappingNode"
    using g2 g3 g4 g5 by (auto dest: getMapValue_Some_Kind)
  \<comment> \<open>the response among the responses of the operation\<close>
  from g5 k(4) have "lookupPairs (Content respNode) status = Inr (Some responseNode)"
    by (simp add: getMapValue_def)
  from lookupPairs_split [OF this] obtain pre1 k1 post1 where
    s1: "Content respNode = pre1 @ k1 # responseNode # post1" "even (length pre1)"
      "Value k1 = status"
    by blast
  have "Site path meth (operationIdOf opNode) status s
          \<in> set (sitesOfResponses path meth (operationIdOf opNode) (Content respNode))"
    using s1 schema by (simp add: sitesOfResponses_append sitesOfResponse_def)
  \<comment> \<open>the opNode among the operations of the path\<close>
  moreover from g3 k(2) have "lookupPairs (Content pathItem) meth = Inr (Some opNode)"
    by (simp add: getMapValue_def)
  from lookupPairs_split [OF this] obtain pre2 k2 post2 where
    s2: "Content pathItem = pre2 @ k2 # opNode # post2" "even (length pre2)"
      "Value k2 = meth"
    by blast
  have "sitesOfOperation path k2 opNode
          = sitesOfResponses path meth (operationIdOf opNode) (Content respNode)"
    using s2(3) meth k g4 by (simp add: sitesOfOperation_def)
  ultimately have "Site path meth (operationIdOf opNode) status s
          \<in> set (sitesOfOperations path (Content pathItem))"
    using s2 by (simp add: sitesOfOperations_append)
  \<comment> \<open>the path among the paths\<close>
  moreover from g2 k(1) have "lookupPairs (Content pathsNode) path = Inr (Some pathItem)"
    by (simp add: getMapValue_def)
  from lookupPairs_split [OF this] obtain pre3 k3 post3 where
    s3: "Content pathsNode = pre3 @ k3 # pathItem # post3" "even (length pre3)"
      "Value k3 = path"
    by blast
  ultimately have "Site path meth (operationIdOf opNode) status s
          \<in> set (sitesOfPaths (Content pathsNode))"
    using s3 k(2) by (simp add: sitesOfPaths_append)
  moreover have "docAt root [''paths''] = Some pathsNode"
    using cr g1 by (simp add: docAt_def)
  ultimately show ?thesis
    using k(1) by (simp add: sites_def)
qed

lemma docAt_append:
  "docAt root ks = Some m \<Longrightarrow> docAt root (ks @ ks') = nodeAt m ks'"
  by (auto simp: docAt_def nodeAt_append split: list.splits)

lemma docAt_prefix:
  "docAt root (ks @ ks') = Some v \<Longrightarrow> \<exists>m. docAt root ks = Some m \<and> nodeAt m ks' = Some v"
  by (auto simp: docAt_def nodeAt_append split: list.splits option.splits)

text \<open>
  A response schema found by following the keys of a document is one the walk reaches,
  and after a run the schema found by following the same keys is the one at the same place
  of the list of the schemas reached.
\<close>

lemma use_site_at_keys:
  assumes run: "RefactorInlineResponseSchemas lib root = Inr (changed, root')"
    and op: "docAt root [''paths'', path, meth] = Some opNode"
    and meth: "meth \<in> set httpMethods"
    and resp: "nodeAt opNode [''responses'', status] = Some responseNode"
    and schema: "schemaOfResponse responseNode = Some s"
  shows "\<exists>i opNode' responseNode' s'.
           i < length (sites root)
         \<and> sites root ! i = Site path meth (operationIdOf opNode) status s
         \<and> docAt root' [''paths'', path, meth] = Some opNode'
         \<and> nodeAt opNode' [''responses'', status] = Some responseNode'
         \<and> schemaOfResponse responseNode' = Some s'
         \<and> sites root' ! i = Site path meth (operationIdOf opNode) status s'"
proof -
  let ?oid = "operationIdOf opNode"
  from refactor_walk [OF run] obtain pathsNode reg content' reg' where
    p: "docAt root [''paths''] = Some pathsNode" "Kind pathsNode = MappingNode"
    and wp: "walkPaths lib (Content pathsNode) reg = Inr (changed, content', reg')"
    and p': "docAt root' [''paths''] = Some (setContent pathsNode content')"
    by blast
  have sr: "sites root = sitesOfPaths (Content pathsNode)" "sites root' = sitesOfPaths content'"
    using p p' by (simp_all add: sites_def)
  from op have "docAt root ([''paths''] @ [path, meth]) = Some opNode" by simp
  then have "nodeAt pathsNode [path, meth] = Some opNode"
    using docAt_append [OF p(1), of "[path, meth]"] by simp
  then obtain pathItem where
    g2: "getMapValue pathsNode path = Inr (Some pathItem)"
    and g3: "getMapValue pathItem meth = Inr (Some opNode)"
    by (auto split: sum.splits option.splits)
  from resp obtain respNode where
    g4: "getMapValue opNode ''responses'' = Inr (Some respNode)"
    and g5: "getMapValue respNode status = Inr (Some responseNode)"
    by (auto split: sum.splits option.splits)
  have k: "Kind pathItem = MappingNode" "Kind opNode = MappingNode" "Kind respNode = MappingNode"
    using g3 g4 g5 by (auto dest: getMapValue_Some_Kind)
  \<comment> \<open>the path\<close>
  have l3: "lookupPairs (Content pathsNode) path = Inr (Some pathItem)"
    using g2 p(2) by (simp add: getMapValue_def)
  from walkPaths_at [OF wp l3 k(1)] obtain content2 A3 B3 A3' B3' r3 ch3 r3' where
    h3: "lookupPairs content' path = Inr (Some (setContent pathItem content2))"
      "walkOperations lib path (Content pathItem) r3 = Inr (ch3, content2, r3')"
      "sitesOfPaths (Content pathsNode) = A3 @ sitesOfOperations path (Content pathItem) @ B3"
      "sitesOfPaths content' = A3' @ sitesOfOperations path content2 @ B3'"
      "length A3' = length A3"
    by blast
  \<comment> \<open>the operation\<close>
  have l2: "lookupPairs (Content pathItem) meth = Inr (Some opNode)"
    using g3 k(1) by (simp add: getMapValue_def)
  from walkOperations_at [OF h3(2) l2] obtain k2 opNode' A2 B2 A2' B2' r2 ch2 r2' where
    h2: "Value k2 = meth" "lookupPairs content2 meth = Inr (Some opNode')"
      "walkOperation lib path k2 opNode r2 = Inr (ch2, opNode', r2')"
      "sitesOfOperations path (Content pathItem) = A2 @ sitesOfOperation path k2 opNode @ B2"
      "sitesOfOperations path content2 = A2' @ sitesOfOperation path k2 opNode' @ B2'"
      "length A2' = length A2"
    by blast
  from h2(3) h2(1) meth k(2,3) g4 obtain content3 where
    w1: "walkResponses lib path meth ?oid (Content respNode) r2 = Inr (ch2, content3, r2')"
    and o': "opNode' = setMapValue opNode ''responses'' (setContent respNode content3)"
    by (auto simp: walkOperation_def Let_def operationIdOf_def
        split: if_splits sum.splits option.splits)
  have so: "sitesOfOperation path k2 opNode = sitesOfResponses path meth ?oid (Content respNode)"
    using h2(1) meth k g4 by (simp add: sitesOfOperation_def)
  have so': "sitesOfOperation path k2 opNode' = sitesOfResponses path meth ?oid content3"
    using h2(1) meth k g4 by (simp add: sitesOfOperation_def o' getMapValue_setMapValue_same)
  \<comment> \<open>the response\<close>
  have l1: "lookupPairs (Content respNode) status = Inr (Some responseNode)"
    using g5 k(3) by (simp add: getMapValue_def)
  from walkResponses_at [OF w1 l1] obtain responseNode' A1 B1 A1' B1' r1 ch1 r1' where
    h1: "lookupPairs content3 status = Inr (Some responseNode')"
      "processResponseSchema lib path meth ?oid status responseNode r1
         = Inr (ch1, responseNode', r1')"
      "sitesOfResponses path meth ?oid (Content respNode)
         = A1 @ sitesOfResponse path meth ?oid status responseNode @ B1"
      "sitesOfResponses path meth ?oid content3
         = A1' @ sitesOfResponse path meth ?oid status responseNode' @ B1'"
      "length A1' = length A1"
    by blast
  from processResponseSchema_cases [OF h1(2)] schema obtain s' where
    s': "schemaOfResponse responseNode' = Some s'"
    by auto
  \<comment> \<open>the place in the list\<close>
  let ?i = "length (A3 @ A2 @ A1)"
  have all: "sites root = (A3 @ A2 @ A1) @ Site path meth ?oid status s # (B1 @ B2 @ B3)"
    using sr(1) h3(3) h2(4) so h1(3) schema by (simp add: sitesOfResponse_def)
  have all': "sites root' = (A3' @ A2' @ A1') @ Site path meth ?oid status s' # (B1' @ B2' @ B3')"
    using sr(2) h3(4) h2(5) so' h1(4) s' by (simp add: sitesOfResponse_def)
  have len: "length (A3' @ A2' @ A1') = ?i"
    using h3(5) h2(6) h1(5) by simp
  have i1: "?i < length (sites root)"
    by (subst all) simp
  have i2: "sites root ! ?i = Site path meth ?oid status s"
    by (subst all) (simp only: nth_append_length)
  have i3: "sites root' ! ?i = Site path meth ?oid status s'"
    by (subst all', subst len [symmetric]) (simp only: nth_append_length)
  \<comment> \<open>the same keys after the run\<close>
  have "nodeAt (setContent pathsNode content') [path, meth] = Some opNode'"
    using h3(1) h2(2) p(2) k(1) by (simp add: getMapValue_def)
  then have d1: "docAt root' [''paths'', path, meth] = Some opNode'"
    using docAt_append [OF p', of "[path, meth]"] by simp
  have "getMapValue opNode' ''responses'' = Inr (Some (setContent respNode content3))"
    using g4 by (simp add: o' getMapValue_setMapValue_same)
  moreover have "getMapValue (setContent respNode content3) status = Inr (Some responseNode')"
    using h1(1) k(3) by (simp add: getMapValue_def)
  ultimately have d2: "nodeAt opNode' [''responses'', status] = Some responseNode'"
    by simp
  show ?thesis
    using i1 i2 i3 d1 d2 s' by blast
qed

section \<open>The alternatives idiom in a document\<close>

text \<open>
  C3, amended. Let the transform succeed on a document whose \<open>components.schemas\<close> is absent
  or a mapping, and let the walk reach, under an operation whose \<open>operationId\<close> is
  \<open>get_airport\<close>, a response schema that is a two-element \<open>allOf\<close> whose first element is a
  mapping with \<open>type: object\<close> and whose second element is a mapping with \<open>type: object\<close> and
  \<open>properties.alternatives\<close> of \<open>type: array\<close> with \<open>items\<close> of \<open>type: object\<close>. The schemas the
  walk reaches are those of \<open>sites\<close>: for each response of each operation, the schema under
  the first JSON media type present. Then after the transform the use-site is a single
  \<open>$ref\<close> to \<open>AirportWithAlternatives\<close>, and \<open>components.schemas\<close> has an entry \<open>Airport\<close> and an
  entry \<open>AirportWithAlternatives\<close>. \<open>Airport\<close> is a clone of the first \<open>allOf\<close> element if
  \<open>components.schemas\<close> had no entry of that name when the walk reached the schema, that is,
  after the rewrites of the schemas reached before it; otherwise it is the entry that was
  there then, which is the document's own entry if the document had one. Likewise
  \<open>AirportWithAlternatives\<close> is the \<open>allOf\<close> of a \<open>$ref\<close> to \<open>Airport\<close> and an \<open>alternatives\<close> array
  whose items are a \<open>$ref\<close> to \<open>Airport\<close>, or the entry that was there. For the first schema
  the walk reaches, the entries that were there are those of the document.
\<close>

theorem alternatives_rewrite_in_document:
  assumes run: "RefactorInlineResponseSchemas lib root = Inr (changed, root')"
    and i: "i < length (sites root)"
    and site: "sites root ! i = Site path method ''get_airport'' status schemaNode"
    and allOf: "getMapValue schemaNode ''allOf'' = Inr (Some allOfNode)"
    and seq: "Kind allOfNode = SequenceNode" "Content allOfNode = [baseNode, extNode]"
    and base: "getMapValue baseNode ''type'' = Inr (Some baseType)" "Value baseType = ''object''"
    and ext: "getMapValue extNode ''type'' = Inr (Some extType)" "Value extType = ''object''"
    and props: "getMapValue extNode ''properties'' = Inr (Some extProps)"
    and alts: "getMapValue extProps ''alternatives'' = Inr (Some alts)"
    and altType: "getMapValue alts ''type'' = Inr (Some altType)" "Value altType = ''array''"
    and items: "getMapValue alts ''items'' = Inr (Some items)"
    and itemsType: "getMapValue items ''type'' = Inr (Some itemsType)"
      "Value itemsType = ''object''"
    and schemas: "Kind (initialSchemas root) = MappingNode"
    and seeded: "newSchemaRegistry lib (initialSchemas root) = Inr reg"
    and earlier: "rewriteSites lib (take i (sites root)) reg = Inr (outs, r)"
    and found1: "getMapValue (schemasNode r) ''Airport'' = Inr found1"
    and found2: "getMapValue (schemasNode r) ''AirportWithAlternatives'' = Inr found2"
  shows "sites root' ! i
           = Site path method ''get_airport'' status
               (setContent schemaNode
                  [scalarNode ''$ref'',
                   scalarNode ''#/components/schemas/AirportWithAlternatives''])
       \<and> docAt root' [''components'', ''schemas'', ''Airport'']
           = Some (case found1 of None \<Rightarrow> baseNode | Some old \<Rightarrow> old)
       \<and> docAt root' [''components'', ''schemas'', ''AirportWithAlternatives'']
           = Some (case found2 of None \<Rightarrow> airportWithAlternatives | Some old \<Rightarrow> old)
       \<and> (\<forall>old. docAt root [''components'', ''schemas'', ''Airport''] = Some old
                \<longrightarrow> found1 = Some old)
       \<and> (\<forall>old. docAt root [''components'', ''schemas'', ''AirportWithAlternatives''] = Some old
                \<longrightarrow> found2 = Some old)
       \<and> (i = 0 \<longrightarrow> Inr found1 = getMapValue (initialSchemas root) ''Airport''
                  \<and> Inr found2 = getMapValue (initialSchemas root) ''AirportWithAlternatives'')"
proof -
  let ?ref = "setContent schemaNode
                [scalarNode ''$ref'', scalarNode ''#/components/schemas/AirportWithAlternatives'']"
  from refactor_rewrites [OF run] seeded obtain reg' where
    rw: "rewritten lib (sites root) reg (sites root') reg'"
    and fin: "docAt root' [''components'', ''schemas''] = Some (schemasNode reg')"
    by auto
  from rw have all: "rewriteSites lib (sites root) reg = Inr (map siteSchema (sites root'), reg')"
    by (simp add: rewritten_def)
  have kinds: "\<forall>x \<in> set (sites root). Kind (siteSchema x) = MappingNode"
    by (simp add: sites_Kind)
  have s0: "schemasNode reg = initialSchemas root"
    by (rule newSchemaRegistry_schemasNode [OF seeded])
  \<comment> \<open>the registry when the walk reaches the schema\<close>
  from rewriteSites_nth [OF all i] earlier site obtain ch ri' d' where
    step: "processSchemaNode lib path method ''get_airport'' status schemaNode r
             = Inr (ch, map siteSchema (sites root') ! i, ri')"
    and rest: "rewriteSites lib (drop (Suc i) (sites root)) ri' = Inr (d', reg')"
    by auto
  have ext0: "extends (initialSchemas root) (schemasNode r)"
    using rewriteSites_lift [OF processSchemaNode_extends _ earlier, of "initialSchemas root"]
      kinds s0 by (auto dest: in_set_takeD)
  then have kr: "Kind (schemasNode r) = MappingNode"
    using schemas by (simp add: extends_def)
  from alternatives_rewrite_call [OF allOf seq base ext props alts altType items itemsType kr
      found1 found2, of lib path "method" status] step
  have res: "map siteSchema (sites root') ! i = ?ref"
    and a1: "getMapValue (schemasNode ri') ''Airport''
               = Inr (Some (case found1 of None \<Rightarrow> baseNode | Some old \<Rightarrow> old))"
    and a2: "getMapValue (schemasNode ri') ''AirportWithAlternatives''
               = Inr (Some (case found2 of None \<Rightarrow> airportWithAlternatives | Some old \<Rightarrow> old))"
    by auto
  \<comment> \<open>the rest of the walk only appends\<close>
  have ext1: "extends (schemasNode ri') (schemasNode reg')"
    using rewriteSites_lift [OF processSchemaNode_extends _ rest, of "schemasNode ri'"]
      kinds by (auto dest: in_set_dropD)
  have f1: "docAt root' ([''components'', ''schemas''] @ [''Airport''])
              = Some (case found1 of None \<Rightarrow> baseNode | Some old \<Rightarrow> old)"
    using extends_getMapValue [OF ext1 a1] docAt_snoc [OF fin, of "''Airport''"] by simp
  have f2: "docAt root' ([''components'', ''schemas''] @ [''AirportWithAlternatives''])
              = Some (case found2 of None \<Rightarrow> airportWithAlternatives | Some old \<Rightarrow> old)"
    using extends_getMapValue [OF ext1 a2] docAt_snoc [OF fin, of "''AirportWithAlternatives''"]
    by simp
  have use: "sites root' ! i = Site path method ''get_airport'' status ?ref"
    using rewritten_nth [OF rw i site all] res by simp
  \<comment> \<open>an entry the document came with\<close>
  have kept: "found = Some old"
    if "docAt root ([''components'', ''schemas''] @ [name]) = Some old"
      and "getMapValue (schemasNode r) name = Inr found" for name old found
  proof -
    from docAt_snoc_Some [OF that(1)] have "getMapValue (initialSchemas root) name = Inr (Some old)"
      by (auto simp: initialSchemas_def)
    from extends_getMapValue [OF ext0 this] that(2) show ?thesis by simp
  qed
  have first: "i = 0 \<longrightarrow> r = reg"
    using earlier by auto
  show ?thesis
    using use f1 f2 kept [OF _ found1] kept [OF _ found2] first found1 found2 s0
    by auto
qed


theorem alternatives_rewrite_in_document_witness:
  "sites docTwoResponses ! 0
     = Site ''/airports/{id}'' ''get'' ''get_airport'' ''200'' (alternativesSchema airportBase)
   \<and> sites docTwoResponses ! 1
       = Site ''/airports/{id}'' ''get'' ''get_airport'' ''404'' (alternativesSchema operatorBase)
   \<and> docAt docTwoResponses [''components'', ''schemas''] = None
   \<and> (\<exists>changed root'.
         RefactorInlineResponseSchemas exampleLib docTwoResponses = Inr (changed, root')
       \<and> sites root' ! 0
           = Site ''/airports/{id}'' ''get'' ''get_airport'' ''200''
               (refSchema ''AirportWithAlternatives'')
       \<and> sites root' ! 1
           = Site ''/airports/{id}'' ''get'' ''get_airport'' ''404''
               (refSchema ''AirportWithAlternatives'')
       \<and> docAt root' [''components'', ''schemas'', ''Airport''] = Some airportBase
       \<and> docAt root' [''components'', ''schemas'', ''AirportWithAlternatives'']
           = Some airportWithAlternatives
       \<and> docAt root' (schemaPlace ''/airports/{id}'' ''get'' ''200'')
           = Some (refSchema ''AirportWithAlternatives'')
       \<and> docAt root' (schemaPlace ''/airports/{id}'' ''get'' ''404'')
           = Some (refSchema ''AirportWithAlternatives''))"
proof -
  let ?doc = "docTwoResponses"
  let ?X = "RefactorInlineResponseSchemas exampleLib ?doc"
  let ?N = "newSchemaRegistry exampleLib (initialSchemas ?doc)"
  let ?E = "rewriteSites exampleLib (take 1 (sites ?doc)) (projr ?N)"
  let ?alts = "\<lambda>b. mapping [scalarNode ''type'', scalarNode ''array'', scalarNode ''items'', b]"
  let ?props = "\<lambda>b. mapping [scalarNode ''alternatives'', ?alts b]"
  have s0: "sites ?doc ! 0
     = Site ''/airports/{id}'' ''get'' ''get_airport'' ''200'' (alternativesSchema airportBase)"
    by code_simp
  have s1: "sites ?doc ! 1
     = Site ''/airports/{id}'' ''get'' ''get_airport'' ''404'' (alternativesSchema operatorBase)"
    by code_simp
  have len: "0 < length (sites ?doc)" "1 < length (sites ?doc)"
    by code_simp+
  have none: "docAt ?doc [''components'', ''schemas''] = None"
    by code_simp
  define changed where "changed = fst (projr ?X)"
  define root' where "root' = snd (projr ?X)"
  have "\<not> isl ?X"
    by code_simp
  then have run: "?X = Inr (changed, root')"
    unfolding changed_def root'_def by (rule Inr_collapse2)
  have keys: "docAt root' (schemaPlace ''/airports/{id}'' ''get'' ''200'')
                = Some (refSchema ''AirportWithAlternatives'')"
    "docAt root' (schemaPlace ''/airports/{id}'' ''get'' ''404'')
       = Some (refSchema ''AirportWithAlternatives'')"
    unfolding root'_def by code_simp+
  have "\<not> isl ?N"
    by code_simp
  then have seeded: "?N = Inr (projr ?N)"
    by (rule Inr_collapse1)
  have k: "Kind (initialSchemas ?doc) = MappingNode"
    by code_simp
  have seq: "Kind (sequence [b, alternativesExt b]) = SequenceNode"
    "Content (sequence [b, alternativesExt b]) = [b, alternativesExt b]" for b
    by (simp_all add: sequence_def)
  have v: "Value (scalarNode ''object'') = ''object''" "Value (scalarNode ''array'') = ''array''"
    by simp_all
  \<comment> \<open>the first response: nothing is registered yet\<close>
  have a1: "getMapValue (alternativesSchema airportBase) ''allOf''
              = Inr (Some (sequence [airportBase, alternativesExt airportBase]))"
    by code_simp
  have a3: "getMapValue airportBase ''type'' = Inr (Some (scalarNode ''object''))"
    by code_simp
  have a4: "getMapValue (alternativesExt airportBase) ''type'' = Inr (Some (scalarNode ''object''))"
    by code_simp
  have a5: "getMapValue (alternativesExt airportBase) ''properties'' = Inr (Some (?props airportBase))"
    by code_simp
  have a6: "getMapValue (?props airportBase) ''alternatives'' = Inr (Some (?alts airportBase))"
    by code_simp
  have a7: "getMapValue (?alts airportBase) ''type'' = Inr (Some (scalarNode ''array''))"
    by code_simp
  have a8: "getMapValue (?alts airportBase) ''items'' = Inr (Some airportBase)"
    by code_simp
  have e0: "rewriteSites exampleLib (take 0 (sites ?doc)) (projr ?N) = Inr ([], projr ?N)"
    by simp
  have f0: "getMapValue (schemasNode (projr ?N)) ''Airport'' = Inr None"
    "getMapValue (schemasNode (projr ?N)) ''AirportWithAlternatives'' = Inr None"
    by code_simp+
  have r0: "setContent (alternativesSchema b)
             [scalarNode ''$ref'', scalarNode ''#/components/schemas/AirportWithAlternatives'']
           = refSchema ''AirportWithAlternatives''" for b
    by (simp add: alternativesSchema_def refSchema_def mapping_def setContent_def)
  have first: "sites root' ! 0
      = Site ''/airports/{id}'' ''get'' ''get_airport'' ''200'' (refSchema ''AirportWithAlternatives'')"
    using alternatives_rewrite_in_document [OF run len(1) s0 a1 seq a3 v(1) a4 v(1) a5 a6 a7 v(2)
        a8 a3 v(1) k seeded e0 f0]
    by (simp add: r0)
  \<comment> \<open>the second response: both names are taken by then\<close>
  have b1: "getMapValue (alternativesSchema operatorBase) ''allOf''
              = Inr (Some (sequence [operatorBase, alternativesExt operatorBase]))"
    by code_simp
  have b3: "getMapValue operatorBase ''type'' = Inr (Some (scalarNode ''object''))"
    by code_simp
  have b4: "getMapValue (alternativesExt operatorBase) ''type'' = Inr (Some (scalarNode ''object''))"
    by code_simp
  have b5: "getMapValue (alternativesExt operatorBase) ''properties''
              = Inr (Some (?props operatorBase))"
    by code_simp
  have b6: "getMapValue (?props operatorBase) ''alternatives'' = Inr (Some (?alts operatorBase))"
    by code_simp
  have b7: "getMapValue (?alts operatorBase) ''type'' = Inr (Some (scalarNode ''array''))"
    by code_simp
  have b8: "getMapValue (?alts operatorBase) ''items'' = Inr (Some operatorBase)"
    by code_simp
  have "\<not> isl ?E"
    by code_simp
  then have e1: "?E = Inr (fst (projr ?E), snd (projr ?E))"
    by (rule Inr_collapse2)
  have f1: "getMapValue (schemasNode (snd (projr ?E))) ''Airport'' = Inr (Some airportBase)"
    "getMapValue (schemasNode (snd (projr ?E))) ''AirportWithAlternatives''
       = Inr (Some airportWithAlternatives)"
    by code_simp+
  have second: "sites root' ! 1
      = Site ''/airports/{id}'' ''get'' ''get_airport'' ''404'' (refSchema ''AirportWithAlternatives'')"
    "docAt root' [''components'', ''schemas'', ''Airport''] = Some airportBase"
    "docAt root' [''components'', ''schemas'', ''AirportWithAlternatives'']
       = Some airportWithAlternatives"
    using alternatives_rewrite_in_document [OF run len(2) s1 b1 seq b3 v(1) b4 v(1) b5 b6 b7 v(2)
        b8 b3 v(1) k seeded e1 f1]
    by (simp_all add: r0)
  have "\<exists>changed root'.
         RefactorInlineResponseSchemas exampleLib docTwoResponses = Inr (changed, root')
       \<and> sites root' ! 0
           = Site ''/airports/{id}'' ''get'' ''get_airport'' ''200''
               (refSchema ''AirportWithAlternatives'')
       \<and> sites root' ! 1
           = Site ''/airports/{id}'' ''get'' ''get_airport'' ''404''
               (refSchema ''AirportWithAlternatives'')
       \<and> docAt root' [''components'', ''schemas'', ''Airport''] = Some airportBase
       \<and> docAt root' [''components'', ''schemas'', ''AirportWithAlternatives'']
           = Some airportWithAlternatives
       \<and> docAt root' (schemaPlace ''/airports/{id}'' ''get'' ''200'')
           = Some (refSchema ''AirportWithAlternatives'')
       \<and> docAt root' (schemaPlace ''/airports/{id}'' ''get'' ''404'')
           = Some (refSchema ''AirportWithAlternatives'')"
    using run first second keys by (intro exI conjI) assumption+
  with s0 s1 none show ?thesis
    by (intro conjI) assumption+
qed

text \<open>
  A schema of the idiom under a later spelling of the media type is not one the walk
  reaches: it stays as it is, and no component is created for it.
\<close>

lemma idiom_under_a_later_spelling_is_not_reached:
  "sites docLaterSpelling
     = [Site ''/airports/{id}'' ''get'' ''get_airport'' ''200'' (refSchema ''Existing'')]
   \<and> \<not> isl (RefactorInlineResponseSchemas exampleLib docLaterSpelling)
   \<and> \<not> fst (projr (RefactorInlineResponseSchemas exampleLib docLaterSpelling))
   \<and> docAt (snd (projr (RefactorInlineResponseSchemas exampleLib docLaterSpelling)))
         [''paths'', ''/airports/{id}'', ''get'', ''responses'', ''200'', ''content'',
          ''application/json; charset=utf-8'', ''schema'']
       = Some (alternativesSchema airportBase)
   \<and> docAt (snd (projr (RefactorInlineResponseSchemas exampleLib docLaterSpelling)))
         [''components'', ''schemas'', ''Airport'']
       = None"
  by code_simp


section \<open>Deduplication in a document\<close>

lemma processSchemaNode_plain:
  assumes "processSchemaNode lib path meth oid status s r = Inr (ch, s', r')"
    and "\<not> matchesIdiom s"
  shows "(isRefOnlySchema s \<and> s' = s \<and> r' = r)
       \<or> (\<not> isRefOnlySchema s
          \<and> componentizeInline lib path meth oid status s r = Inr (ch, s', r'))"
  using assms
  by (auto simp: processSchemaNode_def matchesIdiom_def
      split: if_splits sum.splits option.splits)

lemma componentizeInline_step:
  assumes "componentizeInline lib path meth oid status s r = Inr (ch, s', r')"
    and "Kind s = MappingNode" and "\<not> isRefOnlySchema s"
  shows "\<exists>name. s' = makeRefOnlySchema s name
           \<and> byFingerprint r' (schemaFingerprint lib s) = Some name
           \<and> (r' = r \<or> (byFingerprint r (schemaFingerprint lib s) = None
                        \<and> r' = registerSchema lib r name s))"
  using assms
  by (auto simp: componentizeInline_def componentizeSchema_def Let_def pointee_def
      registerSchema_def cloneNode_id split: sum.splits option.splits)

lemma additions_registerSchema:
  assumes "additions lib b r" and "byFingerprint r (schemaFingerprint lib s) = None"
  shows "additions lib b (registerSchema lib r name s)"
proof -
  from assms(1) obtain new where c: "Content (schemasNode r) = b @ new"
    and e: "even (length new)"
    and d: "distinct (map (\<lambda>(name, v). schemaFingerprint lib v) (pairsOf new))"
    and k: "\<forall>(name, v) \<in> set (pairsOf new). byFingerprint r (schemaFingerprint lib v) \<noteq> None"
    by (auto simp: additions_def)
  let ?new = "new @ [scalarNode name, s]"
  have p: "pairsOf ?new = pairsOf new @ [(name, s)]"
    using e by (simp add: pairsOf_append)
  have 1: "Content (schemasNode (registerSchema lib r name s)) = b @ ?new"
    using c by simp
  have 2: "even (length ?new)"
    using e by simp
  have "schemaFingerprint lib s \<notin> (\<lambda>(name, v). schemaFingerprint lib v) ` set (pairsOf new)"
    using k assms(2) by auto
  then have 3: "distinct (map (\<lambda>(name, v). schemaFingerprint lib v) (pairsOf ?new))"
    using d by (simp add: p)
  have 4: "\<forall>(n, v) \<in> set (pairsOf ?new).
             byFingerprint (registerSchema lib r name s) (schemaFingerprint lib v) \<noteq> None"
    using k by (auto simp: p)
  show ?thesis
    unfolding additions_def using 1 2 3 4 by blast
qed

lemma rewriteSites_plain:
  assumes "\<forall>x \<in> set ss. \<not> matchesIdiom (siteSchema x) \<and> Kind (siteSchema x) = MappingNode"
    and "rewriteSites lib ss r = Inr (outs, r')"
  shows "(\<forall>fp n. byFingerprint r fp = Some n \<longrightarrow> byFingerprint r' fp = Some n)
       \<and> (\<forall>k < length ss. \<not> isRefOnlySchema (siteSchema (ss ! k)) \<longrightarrow>
            (\<exists>name. outs ! k = makeRefOnlySchema (siteSchema (ss ! k)) name
               \<and> byFingerprint r' (schemaFingerprint lib (siteSchema (ss ! k))) = Some name))
       \<and> (additions lib b r \<longrightarrow> additions lib b r')"
  using assms
proof (induction ss arbitrary: r outs)
  case Nil
  then show ?case by simp
next
  case (Cons x ss)
  let ?s = "siteSchema x"
  from Cons.prems(2) obtain ch s' r1 d where
    a: "processSchemaNode lib (sitePath x) (siteMethod x) (siteOperationID x) (siteStatus x)
          ?s r = Inr (ch, s', r1)"
    and b: "rewriteSites lib ss r1 = Inr (d, r')"
    and o: "outs = s' # d"
    by (auto split: sum.splits)
  from Cons.prems(1) have px: "\<not> matchesIdiom ?s" "Kind ?s = MappingNode"
    and ps: "\<forall>x \<in> set ss. \<not> matchesIdiom (siteSchema x) \<and> Kind (siteSchema x) = MappingNode"
    by simp_all
  note IH = Cons.IH [OF ps b]
  have here: "(isRefOnlySchema ?s \<and> s' = ?s \<and> r1 = r)
            \<or> (\<not> isRefOnlySchema ?s
               \<and> (\<exists>name. s' = makeRefOnlySchema ?s name
                     \<and> byFingerprint r1 (schemaFingerprint lib ?s) = Some name
                     \<and> (r1 = r \<or> (byFingerprint r (schemaFingerprint lib ?s) = None
                                  \<and> r1 = registerSchema lib r name ?s))))"
    using processSchemaNode_plain [OF a px(1)] componentizeInline_step [OF _ px(2)]
    by blast
  have m1: "\<forall>fp n. byFingerprint r fp = Some n \<longrightarrow> byFingerprint r1 fp = Some n"
    using here by auto
  have k1: "additions lib b r \<longrightarrow> additions lib b r1"
    using here additions_registerSchema by blast
  have A: "\<forall>fp n. byFingerprint r fp = Some n \<longrightarrow> byFingerprint r' fp = Some n"
    using m1 IH by blast
  have C: "additions lib b r \<longrightarrow> additions lib b r'"
    using k1 IH by blast
  have B: "\<exists>name. outs ! k = makeRefOnlySchema (siteSchema ((x # ss) ! k)) name
             \<and> byFingerprint r' (schemaFingerprint lib (siteSchema ((x # ss) ! k))) = Some name"
    if "k < length (x # ss)" "\<not> isRefOnlySchema (siteSchema ((x # ss) ! k))" for k
  proof (cases k)
    case 0
    with that(2) here obtain name where "s' = makeRefOnlySchema ?s name"
      "byFingerprint r1 (schemaFingerprint lib ?s) = Some name"
      by auto
    with IH 0 show ?thesis by (auto simp: o)
  next
    case (Suc k')
    with that IH show ?thesis by (auto simp: o)
  qed
  show ?case
    using A B C by blast
qed

lemma registerSchema_resolves:
  assumes "fingerprintsResolve lib r"
  shows "fingerprintsResolve lib (registerSchema lib r name n)"
proof -
  from assms have e: "even (length (Content (schemasNode r)))"
    and k: "\<And>fp nm. byFingerprint r fp = Some nm \<Longrightarrow>
              \<exists>v. (nm, v) \<in> set (pairsOf (Content (schemasNode r)))
                \<and> schemaFingerprint lib v = fp"
    by (auto simp: fingerprintsResolve_def)
  have p: "pairsOf (Content (schemasNode (registerSchema lib r name n)))
             = pairsOf (Content (schemasNode r)) @ [(name, n)]"
    using e by (simp add: pairsOf_append)
  have "\<exists>v. (nm, v) \<in> set (pairsOf (Content (schemasNode (registerSchema lib r name n))))
            \<and> schemaFingerprint lib v = fp"
    if "byFingerprint (registerSchema lib r name n) fp = Some nm" for fp nm
  proof (cases "fp = schemaFingerprint lib n")
    case True
    with that have "nm = name" by simp
    moreover have "(name, n) \<in> set (pairsOf (Content (schemasNode (registerSchema lib r name n))))"
      by (subst p) simp
    ultimately show ?thesis using True by blast
  next
    case False
    with that have "byFingerprint r fp = Some nm" by simp
    from k [OF this] obtain v where "(nm, v) \<in> set (pairsOf (Content (schemasNode r)))"
      "schemaFingerprint lib v = fp"
      by blast
    moreover from this(1)
    have "(nm, v) \<in> set (pairsOf (Content (schemasNode (registerSchema lib r name n))))"
      by (subst p) simp
    ultimately show ?thesis by blast
  qed
  moreover have "even (length (Content (schemasNode (registerSchema lib r name n))))"
    using e by simp
  ultimately show ?thesis
    unfolding fingerprintsResolve_def by blast
qed

lemma componentizeSchema_resolves:
  "componentizeSchema lib r (Some n) hint = Inr (name, ch, after, r') \<Longrightarrow>
   fingerprintsResolve lib r \<Longrightarrow> fingerprintsResolve lib r'"
  using componentizeSchema_registry registerSchema_resolves by blast

lemma handleAlternativesPattern_resolves:
  assumes run: "handleAlternativesPattern lib path meth oid status s b r = Inr (ch, s', r')"
    and inv: "fingerprintsResolve lib r"
  shows "fingerprintsResolve lib r'"
proof (cases "deriveSchemaName lib oid")
  case (Inl e)
  with run show ?thesis by (simp add: handleAlternativesPattern_def)
next
  case (Inr baseName)
  show ?thesis
  proof (cases "baseName = []")
    case True
    with run Inr inv show ?thesis
      by (auto simp: handleAlternativesPattern_def split: sum.splits
          dest: componentizeSchema_resolves)
  next
    case False
    define r1 where "r1 = (case getMapValue (schemasNode r) baseName of
        Inr None \<Rightarrow> registerSchema lib r baseName (cloneNode b) | _ \<Rightarrow> r)"
    have i1: "fingerprintsResolve lib r1"
      using inv by (auto simp: r1_def registerSchema_resolves split: sum.splits option.splits)
    define r2 where "r2 = (case getMapValue (schemasNode r1) (baseName @ ''WithAlternatives'') of
        Inr None \<Rightarrow> registerSchema lib r1 (baseName @ ''WithAlternatives'')
                      (buildCompositeSchema baseName)
      | _ \<Rightarrow> r1)"
    have i2: "fingerprintsResolve lib r2"
      using i1 by (auto simp: r2_def registerSchema_resolves split: sum.splits option.splits)
    have "r' = r2"
      using run Inr False
      by (auto simp: handleAlternativesPattern_def Let_def r1_def r2_def
          split: sum.splits option.splits if_splits)
    with i2 show ?thesis by simp
  qed
qed

lemma processSchemaNode_resolves:
  "keptBySchemaRewrite lib (fingerprintsResolve lib)"
  unfolding keptBySchemaRewrite_def
  by (auto simp: processSchemaNode_def componentizeInline_def
      split: if_splits sum.splits option.splits
      dest: componentizeSchema_resolves handleAlternativesPattern_resolves)

lemma seedRegistry_resolves:
  "seedRegistry lib xs r = Inr r' \<Longrightarrow> byFingerprint r' f = Some name \<Longrightarrow>
   byFingerprint r f = Some name
   \<or> (\<exists>v. (name, v) \<in> set (pairsOf xs) \<and> schemaFingerprint lib v = f)"
proof (induction lib xs r rule: seedRegistry.induct)
  case (1 lib r)
  then show ?case by simp
next
  case (2 lib nameNode r)
  then show ?case by simp
next
  case (3 lib nameNode schemaNode rest r)
  let ?r1 = "r\<lparr>existingNames := finsert (Value nameNode) (existingNames r)\<rparr>"
  let ?fp = "schemaFingerprint lib schemaNode"
  let ?r2 = "if ?fp \<noteq> [] then ?r1\<lparr>byFingerprint := (byFingerprint ?r1)(?fp \<mapsto> Value nameNode)\<rparr>
             else ?r1"
  from "3.prems"(1) have seed: "seedRegistry lib rest ?r2 = Inr r'"
    by (simp add: Let_def)
  from "3.IH" [OF refl refl refl refl seed "3.prems"(2)]
  have "byFingerprint ?r2 f = Some name
        \<or> (\<exists>v. (name, v) \<in> set (pairsOf rest) \<and> schemaFingerprint lib v = f)" .
  then show ?case
    by (auto split: if_splits)
qed

lemma newSchemaRegistry_resolves:
  assumes "newSchemaRegistry lib s = Inr r" and "Kind s = MappingNode"
  shows "fingerprintsResolve lib r"
proof -
  let ?r0 = "\<lparr>byFingerprint = Map.empty, existingNames = {||}, schemasNode = s\<rparr>"
  from assms have seed: "seedRegistry lib (Content s) ?r0 = Inr r"
    by (simp add: newSchemaRegistry_def)
  have "schemasNode r = s"
    using seedRegistry_schemasNode [OF seed] by simp
  moreover have "even (length (Content s))"
    by (rule seedRegistry_even [OF seed])
  ultimately show ?thesis
    using seedRegistry_resolves [OF seed] by (auto simp: fingerprintsResolve_def)
qed

lemma pairsOf_extends:
  "even (length xs) \<Longrightarrow> x \<in> set (pairsOf xs) \<Longrightarrow> x \<in> set (pairsOf (xs @ ys))"
  by (induction xs rule: pairsOf.induct) auto

lemma rewriteSites_same_name:
  assumes all: "rewriteSites lib ss r = Inr (outs, r')"
    and ij: "i \<le> j" "j < length ss"
    and kinds: "\<forall>x \<in> set ss. Kind (siteSchema x) = MappingNode"
    and between: "\<forall>k. i \<le> k \<and> k \<le> j \<longrightarrow> \<not> matchesIdiom (siteSchema (ss ! k))"
    and inline: "\<not> isRefOnlySchema (siteSchema (ss ! i))" "\<not> isRefOnlySchema (siteSchema (ss ! j))"
    and same: "schemaFingerprint lib (siteSchema (ss ! i)) = schemaFingerprint lib (siteSchema (ss ! j))"
  shows "\<exists>name. outs ! i = makeRefOnlySchema (siteSchema (ss ! i)) name
               \<and> outs ! j = makeRefOnlySchema (siteSchema (ss ! j)) name
               \<and> (fingerprintsResolve lib r \<longrightarrow>
                    (\<exists>v. (name, v) \<in> set (pairsOf (Content (schemasNode r')))
                       \<and> schemaFingerprint lib v = schemaFingerprint lib (siteSchema (ss ! i))))"
proof -
  let ?M = "take (Suc (j - i)) (drop i ss)"
  let ?C = "drop (Suc (j - i)) (drop i ss)"
  have ss: "ss = take i ss @ (?M @ ?C)"
    by (simp only: append_take_drop_id)
  from all obtain oA rA oM rM oC where
    A: "rewriteSites lib (take i ss) r = Inr (oA, rA)"
    and M: "rewriteSites lib ?M rA = Inr (oM, rM)"
    and C: "rewriteSites lib ?C rM = Inr (oC, r')"
    and o: "outs = oA @ (oM @ oC)"
    by (subst (asm) ss, subst (asm) rewriteSites_append, subst (asm) rewriteSites_append)
       (auto split: sum.splits)
  have lA: "length oA = i"
    using rewriteSites_length [OF A] ij by simp
  have lM: "length oM = Suc (j - i)"
    using rewriteSites_length [OF M] ij by simp
  have nth: "?M ! k = ss ! (i + k)" if "k \<le> j - i" for k
    using that ij by simp
  have "\<forall>x \<in> set ?M. \<not> matchesIdiom (siteSchema x) \<and> Kind (siteSchema x) = MappingNode"
  proof
    fix x assume "x \<in> set ?M"
    then obtain k where k: "k < length ?M" "x = ?M ! k"
      by (auto simp: in_set_conv_nth)
    then have kk: "k \<le> j - i" using ij by simp
    have "x = ss ! (i + k)"
      using k(2) nth [OF kk] by simp
    moreover have "i + k \<le> j" using kk ij by simp
    moreover have "x \<in> set ss"
      using \<open>x \<in> set ?M\<close> by (auto dest: in_set_takeD in_set_dropD)
    ultimately show "\<not> matchesIdiom (siteSchema x) \<and> Kind (siteSchema x) = MappingNode"
      using between kinds by simp
  qed
  note facts = rewriteSites_plain [OF this M, of "[]"]
  have len: "0 < length ?M" "j - i < length ?M"
    using ij by simp_all
  from facts len(1) inline(1) nth [of 0] obtain name1 where
    o1: "oM ! 0 = makeRefOnlySchema (siteSchema (ss ! i)) name1"
    and b1: "byFingerprint rM (schemaFingerprint lib (siteSchema (ss ! i))) = Some name1"
    by fastforce
  from facts len(2) inline(2) nth [of "j - i"] ij obtain name2 where
    o2: "oM ! (j - i) = makeRefOnlySchema (siteSchema (ss ! j)) name2"
    and b2: "byFingerprint rM (schemaFingerprint lib (siteSchema (ss ! j))) = Some name2"
    by fastforce
  from b1 b2 same have eq: "name2 = name1" by simp
  have "outs ! i = oM ! 0"
    using lA lM by (simp add: o nth_append)
  moreover have "outs ! j = oM ! (j - i)"
    using lA lM ij by (simp add: o nth_append)
  ultimately have names: "outs ! i = makeRefOnlySchema (siteSchema (ss ! i)) name1"
    "outs ! j = makeRefOnlySchema (siteSchema (ss ! j)) name1"
    using o1 o2 eq by simp_all
  \<comment> \<open>the entry under the name\<close>
  have entry: "\<exists>v. (name1, v) \<in> set (pairsOf (Content (schemasNode r')))
                 \<and> schemaFingerprint lib v = schemaFingerprint lib (siteSchema (ss ! i))"
    if res: "fingerprintsResolve lib r"
  proof -
    have kA: "\<forall>x \<in> set (take i ss). Kind (siteSchema x) = MappingNode"
      and kM: "\<forall>x \<in> set ?M. Kind (siteSchema x) = MappingNode"
      and kC: "\<forall>x \<in> set ?C. Kind (siteSchema x) = MappingNode"
      using kinds by (auto dest: in_set_takeD in_set_dropD)
    have "fingerprintsResolve lib rA"
      by (rule rewriteSites_lift [OF processSchemaNode_resolves kA A res])
    then have rM: "fingerprintsResolve lib rM"
      by (rule rewriteSites_lift [OF processSchemaNode_resolves kM M])
    with b1 obtain v where v: "(name1, v) \<in> set (pairsOf (Content (schemasNode rM)))"
      "schemaFingerprint lib v = schemaFingerprint lib (siteSchema (ss ! i))"
      by (auto simp: fingerprintsResolve_def)
    have "extends (schemasNode rM) (schemasNode r')"
      using rewriteSites_lift [OF processSchemaNode_extends kC C, of "schemasNode rM"] by simp
    then obtain ys where "Content (schemasNode r') = Content (schemasNode rM) @ ys"
      by (auto simp: extends_def)
    moreover have "even (length (Content (schemasNode rM)))"
      using rM by (simp add: fingerprintsResolve_def)
    ultimately have "(name1, v) \<in> set (pairsOf (Content (schemasNode r')))"
      using v(1) by (simp add: pairsOf_extends)
    with v(2) show ?thesis by blast
  qed
  show ?thesis
    using names entry by blast
qed

text \<open>
  C2, amended. Let the transform succeed on a document, and let the walk reach two inline
  response schemas (mappings that are not references) with equal fingerprints, such that
  neither of them, nor any schema the walk reaches between them, matches the alternatives
  idiom. Then after the transform both use-sites are references to the same component
  name; if \<open>components.schemas\<close> was absent or a mapping, it has an entry of that name whose
  schema has the fingerprint of the two. \<open>components.schemas\<close> is what it was with entries
  appended, and if no schema the walk reaches matches the alternatives idiom, no two of
  the appended entries have the same fingerprint, so that at most one entry is added for
  the shape.
\<close>

theorem deduplication_in_document:
  assumes run: "RefactorInlineResponseSchemas lib root = Inr (changed, root')"
    and i: "i < length (sites root)" and j: "j < length (sites root)"
    and site1: "sites root ! i = Site path1 method1 operationID1 status1 s1"
    and site2: "sites root ! j = Site path2 method2 operationID2 status2 s2"
    and inline: "\<not> isRefOnlySchema s1" "\<not> isRefOnlySchema s2"
    and same: "schemaFingerprint lib s1 = schemaFingerprint lib s2"
    and between: "\<forall>k. (i \<le> k \<and> k \<le> j) \<or> (j \<le> k \<and> k \<le> i) \<longrightarrow>
                    \<not> matchesIdiom (siteSchema (sites root ! k))"
  shows "\<exists>name schemas' new.
           sites root' ! i = Site path1 method1 operationID1 status1 (makeRefOnlySchema s1 name)
         \<and> sites root' ! j = Site path2 method2 operationID2 status2 (makeRefOnlySchema s2 name)
         \<and> docAt root' [''components'', ''schemas''] = Some schemas'
         \<and> Content schemas' = Content (initialSchemas root) @ new
         \<and> (Kind (initialSchemas root) = MappingNode \<longrightarrow>
              (\<exists>v. (name, v) \<in> set (pairsOf (Content schemas'))
                 \<and> schemaFingerprint lib v = schemaFingerprint lib s1))
         \<and> ((\<forall>x \<in> set (sites root). \<not> matchesIdiom (siteSchema x)) \<longrightarrow>
              distinct (map (\<lambda>(name, v). schemaFingerprint lib v) (pairsOf new)))"
proof -
  from refactor_rewrites [OF run] obtain reg reg' where
    seeded: "newSchemaRegistry lib (initialSchemas root) = Inr reg"
    and rw: "rewritten lib (sites root) reg (sites root') reg'"
    and fin: "docAt root' [''components'', ''schemas''] = Some (schemasNode reg')"
    by auto
  from rw have all: "rewriteSites lib (sites root) reg = Inr (map siteSchema (sites root'), reg')"
    by (simp add: rewritten_def)
  have kinds: "\<forall>x \<in> set (sites root). Kind (siteSchema x) = MappingNode"
    by (simp add: sites_Kind)
  have s0: "schemasNode reg = initialSchemas root"
    by (rule newSchemaRegistry_schemasNode [OF seeded])
  \<comment> \<open>one name for the two use-sites\<close>
  have res: "fingerprintsResolve lib reg" if "Kind (initialSchemas root) = MappingNode"
    using newSchemaRegistry_resolves [OF seeded that] .
  have "\<exists>name. map siteSchema (sites root') ! i = makeRefOnlySchema s1 name
             \<and> map siteSchema (sites root') ! j = makeRefOnlySchema s2 name
             \<and> (Kind (initialSchemas root) = MappingNode \<longrightarrow>
                  (\<exists>v. (name, v) \<in> set (pairsOf (Content (schemasNode reg')))
                     \<and> schemaFingerprint lib v = schemaFingerprint lib s1))"
  proof (cases "i \<le> j")
    case True
    show ?thesis
      using rewriteSites_same_name [OF all True j kinds] between inline same site1 site2 res
      by auto
  next
    case False
    then have ji: "j \<le> i" by simp
    show ?thesis
      using rewriteSites_same_name [OF all ji i kinds] between inline same site1 site2 res
      by auto
  qed
  then obtain name where
    o1: "map siteSchema (sites root') ! i = makeRefOnlySchema s1 name"
    and o2: "map siteSchema (sites root') ! j = makeRefOnlySchema s2 name"
    and o3: "Kind (initialSchemas root) = MappingNode \<longrightarrow>
               (\<exists>v. (name, v) \<in> set (pairsOf (Content (schemasNode reg')))
                  \<and> schemaFingerprint lib v = schemaFingerprint lib s1)"
    by auto
  have u1: "sites root' ! i = Site path1 method1 operationID1 status1 (makeRefOnlySchema s1 name)"
    using rewritten_nth [OF rw i site1 all] o1 by simp
  have u2: "sites root' ! j = Site path2 method2 operationID2 status2 (makeRefOnlySchema s2 name)"
    using rewritten_nth [OF rw j site2 all] o2 by simp
  \<comment> \<open>the entries the run adds\<close>
  have "extends (initialSchemas root) (schemasNode reg')"
    using rewriteSites_lift [OF processSchemaNode_extends kinds all, of "initialSchemas root"] s0
    by simp
  then obtain new where new: "Content (schemasNode reg') = Content (initialSchemas root) @ new"
    by (auto simp: extends_def)
  have d: "distinct (map (\<lambda>(name, v). schemaFingerprint lib v) (pairsOf new))"
    if plain: "\<forall>x \<in> set (sites root). \<not> matchesIdiom (siteSchema x)"
  proof -
    have ok: "\<forall>x \<in> set (sites root).
                \<not> matchesIdiom (siteSchema x) \<and> Kind (siteSchema x) = MappingNode"
      using plain kinds by simp
    have "additions lib (Content (initialSchemas root)) reg"
      by (simp add: additions_def s0)
    with rewriteSites_plain [OF ok all, of "Content (initialSchemas root)"]
    have "additions lib (Content (initialSchemas root)) reg'" by blast
    then show ?thesis
      using new by (auto simp: additions_def)
  qed
  show ?thesis
    using u1 u2 fin new o3 d by blast
qed


theorem deduplication_in_document_witness:
  "sites docThreePlain ! 0 = Site ''/a'' ''get'' ''get_a'' ''200'' objectSchema
   \<and> sites docThreePlain ! 2 = Site ''/c'' ''get'' ''get_c'' ''200'' objectSchema
   \<and> docAt docThreePlain [''components'', ''schemas''] = None
   \<and> (\<exists>changed root' name new.
         RefactorInlineResponseSchemas exampleLib docThreePlain = Inr (changed, root')
       \<and> sites root' ! 0 = Site ''/a'' ''get'' ''get_a'' ''200'' (refSchema name)
       \<and> sites root' ! 2 = Site ''/c'' ''get'' ''get_c'' ''200'' (refSchema name)
       \<and> docAt root' [''components'', ''schemas''] = Some (Node MappingNode [] [] new)
       \<and> distinct (map (\<lambda>(name, v). schemaFingerprint exampleLib v) (pairsOf new))
       \<and> (\<exists>v. (name, v) \<in> set (pairsOf new)
              \<and> schemaFingerprint exampleLib v = schemaFingerprint exampleLib objectSchema)
       \<and> docAt root' (schemaPlace ''/a'' ''get'' ''200'') = Some (refSchema ''A200Response'')
       \<and> docAt root' (schemaPlace ''/c'' ''get'' ''200'') = Some (refSchema ''A200Response'')
       \<and> docAt root' [''components'', ''schemas'']
           = Some (Node MappingNode [] []
                     [scalarNode ''A200Response'', objectSchema,
                      scalarNode ''B200Response'', stringSchema]))"
proof -
  let ?doc = "docThreePlain"
  let ?X = "RefactorInlineResponseSchemas exampleLib ?doc"
  have s0: "sites ?doc ! 0 = Site ''/a'' ''get'' ''get_a'' ''200'' objectSchema"
    by code_simp
  have s2: "sites ?doc ! 2 = Site ''/c'' ''get'' ''get_c'' ''200'' objectSchema"
    by code_simp
  have len: "0 < length (sites ?doc)" "2 < length (sites ?doc)"
    by code_simp+
  have none: "docAt ?doc [''components'', ''schemas''] = None"
    by code_simp
  have init: "initialSchemas ?doc = Node MappingNode [] [] []"
    using none by (simp add: initialSchemas_def)
  have inline: "\<not> isRefOnlySchema objectSchema"
    by code_simp
  have "list_all (\<lambda>x. \<not> matchesIdiom (siteSchema x)) (sites ?doc)"
    by code_simp
  then have plain: "\<forall>x \<in> set (sites ?doc). \<not> matchesIdiom (siteSchema x)"
    by (simp add: list_all_iff)
  have between: "\<forall>k. (0 \<le> k \<and> k \<le> 2) \<or> (2 \<le> k \<and> k \<le> 0) \<longrightarrow>
                   \<not> matchesIdiom (siteSchema (sites ?doc ! k))"
    using plain len(2) by auto
  have m: "makeRefOnlySchema objectSchema name = refSchema name" for name
    by (simp add: makeRefOnlySchema_def objectSchema_def mapping_def refSchema_def setContent_def)
  have "\<not> isl ?X"
    by code_simp
  then have run: "?X = Inr (fst (projr ?X), snd (projr ?X))"
    by (rule Inr_collapse2)
  have c: "docAt (snd (projr ?X)) (schemaPlace ''/a'' ''get'' ''200'')
             = Some (refSchema ''A200Response'')"
    "docAt (snd (projr ?X)) (schemaPlace ''/c'' ''get'' ''200'')
       = Some (refSchema ''A200Response'')"
    "docAt (snd (projr ?X)) [''components'', ''schemas'']
       = Some (Node MappingNode [] []
                 [scalarNode ''A200Response'', objectSchema,
                  scalarNode ''B200Response'', stringSchema])"
    by code_simp+
  from deduplication_in_document [OF run len s0 s2 inline inline refl between] plain
  obtain name new where
    u: "sites (snd (projr ?X)) ! 0 = Site ''/a'' ''get'' ''get_a'' ''200'' (refSchema name)"
      "sites (snd (projr ?X)) ! 2 = Site ''/c'' ''get'' ''get_c'' ''200'' (refSchema name)"
    and n: "Content (Node MappingNode [] []
                 [scalarNode ''A200Response'', objectSchema,
                  scalarNode ''B200Response'', stringSchema]) = [] @ new"
      "distinct (map (\<lambda>(name, v). schemaFingerprint exampleLib v) (pairsOf new))"
    and e: "\<exists>v. (name, v) \<in> set (pairsOf new)
              \<and> schemaFingerprint exampleLib v = schemaFingerprint exampleLib objectSchema"
    by (auto simp: m c(3) init)
  from e obtain v where ev: "(name, v) \<in> set (pairsOf new)"
    "schemaFingerprint exampleLib v = schemaFingerprint exampleLib objectSchema"
    by blast
  from n(1) have new: "Node MappingNode [] []
                 [scalarNode ''A200Response'', objectSchema,
                  scalarNode ''B200Response'', stringSchema] = Node MappingNode [] [] new"
    by simp
  have "\<exists>changed root' name new.
         RefactorInlineResponseSchemas exampleLib docThreePlain = Inr (changed, root')
       \<and> sites root' ! 0 = Site ''/a'' ''get'' ''get_a'' ''200'' (refSchema name)
       \<and> sites root' ! 2 = Site ''/c'' ''get'' ''get_c'' ''200'' (refSchema name)
       \<and> docAt root' [''components'', ''schemas''] = Some (Node MappingNode [] [] new)
       \<and> distinct (map (\<lambda>(name, v). schemaFingerprint exampleLib v) (pairsOf new))
       \<and> (\<exists>v. (name, v) \<in> set (pairsOf new)
              \<and> schemaFingerprint exampleLib v = schemaFingerprint exampleLib objectSchema)
       \<and> docAt root' (schemaPlace ''/a'' ''get'' ''200'') = Some (refSchema ''A200Response'')
       \<and> docAt root' (schemaPlace ''/c'' ''get'' ''200'') = Some (refSchema ''A200Response'')
       \<and> docAt root' [''components'', ''schemas'']
           = Some (Node MappingNode [] []
                     [scalarNode ''A200Response'', objectSchema,
                      scalarNode ''B200Response'', stringSchema])"
    using run u n(2) ev c new
    apply (intro exI conjI)
             apply assumption
            apply assumption
           apply assumption
          apply (simp only:)
         apply assumption
        apply assumption
       apply assumption
      apply assumption
     apply assumption
    apply assumption
    done
  with s0 s2 none show ?thesis
    by (intro conjI) assumption+
qed

text \<open>
  A schema of the alternatives idiom between the two: its first \<open>allOf\<close> element has the
  fingerprint of the two plain schemas, the rewrite registers it as \<open>Airport\<close> under that
  fingerprint, and the second plain schema becomes a reference to \<open>Airport\<close>.
\<close>

lemma alternatives_between_take_the_fingerprint:
  "map siteSchema (sites docAlternativesBetween)
     = [objectSchema, alternativesSchema objectSchema, objectSchema]
   \<and> \<not> isl (RefactorInlineResponseSchemas exampleLib docAlternativesBetween)
   \<and> map siteSchema
         (sites (snd (projr (RefactorInlineResponseSchemas exampleLib docAlternativesBetween))))
       = [refSchema ''A200Response'', refSchema ''AirportWithAlternatives'', refSchema ''Airport'']"
  by code_simp


end
